theory Spec2Isabelle
  imports Main "HOL-Library.AList" "HOL-Library.Sublist"
begin


section \<open>Data model\<close>

text \<open>
  The program is \<^verbatim>\<open>src/oxidx_ollama/oxidx_ollama.py\<close>. A Python \<^verbatim>\<open>str\<close> is a sequence of
  Unicode code points, so a string is a list of code points here (\<^verbatim>\<open>len\<close> counts code
  points, \<^verbatim>\<open>strip\<close> knows the Unicode white space, the program's literals contain
  characters beyond Latin-1). \<open>ustr\<close> turns an ASCII literal into such a string.
\<close>

type_synonym ustring = "nat list"

definition ustr :: "string \<Rightarrow> ustring" where
  "ustr s = map of_char s"

lemma ustr_eq_iff [simp]: "ustr a = ustr b \<longleftrightarrow> a = b"
proof -
  have "inj (of_char :: char \<Rightarrow> nat)"
    by (rule inj_on_inverseI [where g = char_of]) simp
  then show ?thesis by (simp add: ustr_def inj_map_eq_map)
qed

lemma ustr_Nil [simp]: "ustr [] = []"
  by (simp add: ustr_def)

lemma ustr_eq_Nil [simp]: "ustr s = [] \<longleftrightarrow> s = []"
  by (simp add: ustr_def)

lemma length_ustr [simp]: "length (ustr s) = length s"
  by (simp add: ustr_def)

text \<open>
  The values that \<^verbatim>\<open>json.loads\<close> produces and \<^verbatim>\<open>json.dumps\<close> accepts: \<^verbatim>\<open>None\<close>, \<^verbatim>\<open>bool\<close>,
  \<^verbatim>\<open>int\<close> (unbounded), \<^verbatim>\<open>float\<close>, \<^verbatim>\<open>str\<close>, \<^verbatim>\<open>list\<close> and \<^verbatim>\<open>dict\<close> with \<^verbatim>\<open>str\<close> keys. A \<^verbatim>\<open>dict\<close>
  keeps insertion order, so it is an association list; \<^verbatim>\<open>d[k] = v\<close> is
  \<^const>\<open>AList.update\<close> (replace in place, or append), \<^verbatim>\<open>k in d\<close> and \<^verbatim>\<open>d[k]\<close> read
  \<^const>\<open>map_of\<close>. A \<^verbatim>\<open>float\<close> is carried as the literal that denotes it (the argument
  \<^verbatim>\<open>json\<close> hands to \<^verbatim>\<open>float()\<close>): the program never computes with one.
\<close>

datatype json =
    JNull
  | JBool bool
  | JInt int
  | JFloat ustring
  | JStr ustring
  | JArr "json list"
  | JObj "(ustring \<times> json) list"

type_synonym pydict = "(ustring \<times> json) list"

datatype py_error =
    KeyError
  | IndexError
  | TypeError
  | AttributeError
  | JSONDecodeError
  | BrokenPipeError

fun is_dict :: "json \<Rightarrow> bool" where
  "is_dict (JObj d) = True"
| "is_dict v = False"

fun is_list :: "json \<Rightarrow> bool" where
  "is_list (JArr xs) = True"
| "is_list v = False"

definition has_key :: "pydict \<Rightarrow> ustring \<Rightarrow> bool" where
  "has_key d k = (map_of d k \<noteq> None)"

section \<open>Python string operations\<close>

text \<open>\<^verbatim>\<open>str.isspace\<close> of one character: the code points \<^verbatim>\<open>str.strip()\<close> removes.\<close>

definition is_space :: "nat \<Rightarrow> bool" where
  "is_space c =
     ((9 \<le> c \<and> c \<le> 13) \<or> (28 \<le> c \<and> c \<le> 32) \<or> c = 0x85 \<or> c = 0xA0 \<or> c = 0x1680
      \<or> (0x2000 \<le> c \<and> c \<le> 0x200A) \<or> c = 0x2028 \<or> c = 0x2029 \<or> c = 0x202F
      \<or> c = 0x205F \<or> c = 0x3000)"

definition str_strip :: "ustring \<Rightarrow> ustring" where
  "str_strip s = rev (dropWhile is_space (rev (dropWhile is_space s)))"

definition startswith :: "ustring \<Rightarrow> ustring \<Rightarrow> bool" where
  "startswith s p = (take (length p) s = p)"

definition endswith :: "ustring \<Rightarrow> ustring \<Rightarrow> bool" where
  "endswith s p = (length p \<le> length s \<and> drop (length s - length p) s = p)"

text \<open>\<^verbatim>\<open>s.find(sub)\<close>: the lowest index where \<open>sub\<close> starts, \<open>None\<close> for Python's \<open>-1\<close>.\<close>

fun str_find :: "ustring \<Rightarrow> ustring \<Rightarrow> nat option" where
  "str_find [] sub = (if sub = [] then Some 0 else None)"
| "str_find (c # s) sub =
     (if startswith (c # s) sub then Some 0 else map_option Suc (str_find s sub))"

text \<open>\<^verbatim>\<open>s.rfind(sub)\<close>: the highest index where \<open>sub\<close> starts.\<close>

fun str_rfind :: "ustring \<Rightarrow> ustring \<Rightarrow> nat option" where
  "str_rfind [] sub = (if sub = [] then Some 0 else None)"
| "str_rfind (c # s) sub =
     (case str_rfind s sub of
        Some i \<Rightarrow> Some (Suc i)
      | None \<Rightarrow> if startswith (c # s) sub then Some 0 else None)"

text \<open>\<^verbatim>\<open>sub in s\<close> for strings.\<close>

definition contains :: "ustring \<Rightarrow> ustring \<Rightarrow> bool" where
  "contains s sub = (str_find s sub \<noteq> None)"

text \<open>
  \<^verbatim>\<open>s.split(sep)\<close> for a non-empty separator, scanning left to right; \<open>cur\<close> is the piece
  being read.
\<close>

fun split_from :: "ustring \<Rightarrow> ustring \<Rightarrow> ustring \<Rightarrow> ustring list" where
  "split_from sep cur [] = [cur]"
| "split_from sep cur (c # s) =
     (if sep \<noteq> [] \<and> startswith (c # s) sep
      then cur # split_from sep [] (drop (length sep - 1) s)
      else split_from sep (cur @ [c]) s)"

definition str_split :: "ustring \<Rightarrow> ustring \<Rightarrow> ustring list" where
  "str_split s sep = split_from sep [] s"

text \<open>The slice \<^verbatim>\<open>s[i:j]\<close> for indices that are not negative.\<close>

definition slice :: "ustring \<Rightarrow> nat \<Rightarrow> nat \<Rightarrow> ustring" where
  "slice s i j = drop i (take j s)"

section \<open>The library function \<^verbatim>\<open>json.loads\<close>\<close>

text \<open>
  \<^verbatim>\<open>json.loads\<close> belongs to Python's standard library, not to the repository. It is modelled
  after CPython's \<^verbatim>\<open>json.decoder\<close> and \<^verbatim>\<open>json.scanner\<close> with their default settings:
  \<^verbatim>\<open>scanstring\<close> in strict mode, the number grammar
  \<^verbatim>\<open>-?(0|[1-9][0-9]*)(\.[0-9]+)?([eE][-+]?[0-9]+)?\<close>, the constants \<^verbatim>\<open>NaN\<close>, \<^verbatim>\<open>Infinity\<close> and
  \<^verbatim>\<open>-Infinity\<close>, white space \<^verbatim>\<open>' \t\n\r'\<close> between tokens, and a \<^verbatim>\<open>dict\<close> in which a repeated
  key keeps its first position and its last value. \<open>None\<close> stands for every exception
  \<^verbatim>\<open>json.loads\<close> raises. The interpreter's resource limits (recursion depth, the digit
  limit of \<^verbatim>\<open>int()\<close>) are not modelled.
\<close>

definition is_digit :: "nat \<Rightarrow> bool" where
  "is_digit c = (48 \<le> c \<and> c \<le> 57)"

definition json_ws :: "nat \<Rightarrow> bool" where
  "json_ws c = (c = 32 \<or> c = 9 \<or> c = 10 \<or> c = 13)"

definition skip_ws :: "ustring \<Rightarrow> ustring" where
  "skip_ws s = dropWhile json_ws s"

definition hex_digit :: "nat \<Rightarrow> nat option" where
  "hex_digit c =
     (if 48 \<le> c \<and> c \<le> 57 then Some (c - 48)
      else if 97 \<le> c \<and> c \<le> 102 then Some (c - 87)
      else if 65 \<le> c \<and> c \<le> 70 then Some (c - 55)
      else None)"

text \<open>The four hexadecimal digits after \<^verbatim>\<open>\u\<close>.\<close>

fun decode_uXXXX :: "ustring \<Rightarrow> nat option" where
  "decode_uXXXX (a # b # c # d # r) =
     (case hex_digit a of None \<Rightarrow> None | Some x \<Rightarrow>
       (case hex_digit b of None \<Rightarrow> None | Some y \<Rightarrow>
         (case hex_digit c of None \<Rightarrow> None | Some z \<Rightarrow>
           (case hex_digit d of None \<Rightarrow> None | Some w \<Rightarrow>
              Some (((x * 16 + y) * 16 + z) * 16 + w)))))"
| "decode_uXXXX s = None"

text \<open>The table \<^verbatim>\<open>BACKSLASH\<close> of one-letter escapes.\<close>

definition backslash :: "nat \<Rightarrow> nat option" where
  "backslash c =
     (if c = 0x22 then Some 0x22
      else if c = 0x5C then Some 0x5C
      else if c = 0x2F then Some 0x2F
      else if c = 0x62 then Some 8
      else if c = 0x66 then Some 12
      else if c = 0x6E then Some 10
      else if c = 0x72 then Some 13
      else if c = 0x74 then Some 9
      else None)"

text \<open>
  \<^verbatim>\<open>scanstring\<close>, entered after the opening quote: the decoded string and the text after
  the closing quote. \<open>0x22\<close> is the quote, \<open>0x5C\<close> the backslash, \<open>0x75\<close> the letter u.
  A high surrogate followed by an escaped low surrogate is one code point.
\<close>

fun scanstring :: "ustring \<Rightarrow> ustring \<Rightarrow> (ustring \<times> ustring) option" where
  "scanstring chunks [] = None"
| "scanstring chunks (c # r) =
     (if c = 0x22 then Some (chunks, r)
      else if c = 0x5C then
        (case r of
           [] \<Rightarrow> None
         | esc # r1 \<Rightarrow>
             if esc = 0x75 then
               (case decode_uXXXX r1 of
                  None \<Rightarrow> None
                | Some uni \<Rightarrow>
                    if 0xD800 \<le> uni \<and> uni \<le> 0xDBFF \<and> take 2 (drop 4 r1) = [0x5C, 0x75] then
                      (case decode_uXXXX (drop 6 r1) of
                         None \<Rightarrow> None
                       | Some uni2 \<Rightarrow>
                           if 0xDC00 \<le> uni2 \<and> uni2 \<le> 0xDFFF
                           then scanstring
                                  (chunks @ [0x10000 + ((uni - 0xD800) * 1024 + (uni2 - 0xDC00))])
                                  (drop 10 r1)
                           else scanstring (chunks @ [uni]) (drop 4 r1))
                    else scanstring (chunks @ [uni]) (drop 4 r1))
             else
               (case backslash esc of
                  None \<Rightarrow> None
                | Some ch \<Rightarrow> scanstring (chunks @ [ch]) r1))
      else if c < 0x20 then None
      else scanstring (chunks @ [c]) r)"

text \<open>\<^verbatim>\<open>int()\<close> of a run of decimal digits.\<close>

definition digits_value :: "ustring \<Rightarrow> int" where
  "digits_value ds = foldl (\<lambda>n c. 10 * n + int (c - 48)) 0 ds"

text \<open>The exponent part \<^verbatim>\<open>[eE][-+]?[0-9]+\<close> at the head of the text, or nothing.\<close>

definition exponent_part :: "ustring \<Rightarrow> ustring" where
  "exponent_part s =
     (case s of
        [] \<Rightarrow> []
      | e # t \<Rightarrow>
          if e = 0x65 \<or> e = 0x45 then
            (let sg = (case t of [] \<Rightarrow> [] | x # _ \<Rightarrow> if x = 0x2B \<or> x = 0x2D then [x] else []);
                 ds = takeWhile is_digit (drop (length sg) t)
             in if ds = [] then [] else e # sg @ ds)
          else [])"

text \<open>The fraction part \<^verbatim>\<open>\.[0-9]+\<close> at the head of the text, or nothing.\<close>

definition fraction_part :: "ustring \<Rightarrow> ustring" where
  "fraction_part s =
     (case s of
        d # e # t \<Rightarrow> if d = 0x2E \<and> is_digit e then d # takeWhile is_digit (e # t) else []
      | _ \<Rightarrow> [])"

text \<open>
  A number at the head of the text, its sign already read: an \<^verbatim>\<open>int\<close> when it has neither
  fraction nor exponent, otherwise the \<^verbatim>\<open>float\<close> its literal denotes.
\<close>

definition match_unsigned :: "bool \<Rightarrow> ustring \<Rightarrow> (json \<times> ustring) option" where
  "match_unsigned neg s =
     (case s of
        [] \<Rightarrow> None
      | c # r \<Rightarrow>
          if \<not> is_digit c then None
          else
            (let ip = (if c = 48 then [c] else takeWhile is_digit s);
                 r1 = drop (length ip) s;
                 fr = fraction_part r1;
                 r2 = drop (length fr) r1;
                 ex = exponent_part r2;
                 r3 = drop (length ex) r2
             in if fr = [] \<and> ex = []
                then Some (JInt (if neg then - digits_value ip else digits_value ip), r3)
                else Some (JFloat ((if neg then ustr ''-'' else []) @ ip @ fr @ ex), r3)))"

definition match_number :: "ustring \<Rightarrow> (json \<times> ustring) option" where
  "match_number s =
     (if startswith s (ustr ''-'') then match_unsigned True (drop 1 s)
      else match_unsigned False s)"

text \<open>The values that are neither strings nor containers, tried in the scanner's order.\<close>

definition scan_atom :: "ustring \<Rightarrow> (json \<times> ustring) option" where
  "scan_atom s =
     (if startswith s (ustr ''null'') then Some (JNull, drop 4 s)
      else if startswith s (ustr ''true'') then Some (JBool True, drop 4 s)
      else if startswith s (ustr ''false'') then Some (JBool False, drop 5 s)
      else if startswith s (ustr ''NaN'') then Some (JFloat (ustr ''NaN''), drop 3 s)
      else if startswith s (ustr ''Infinity'') then Some (JFloat (ustr ''Infinity''), drop 8 s)
      else if startswith s (ustr ''-Infinity'') then Some (JFloat (ustr ''-Infinity''), drop 9 s)
      else match_number s)"

lemma scanstring_length:
  "scanstring chunks s = Some (t, r) \<Longrightarrow> length t + length r < length chunks + length s"
proof (induction "length s" arbitrary: chunks s rule: less_induct)
  case less
  have step: "length t + length r < length ch + length s'"
    if "length s' < length s" "scanstring ch s' = Some (t, r)" for ch s'
    using less.hyps [OF that] .
  show ?case
  proof (cases s)
    case Nil
    with less.prems show ?thesis by simp
  next
    case (Cons c r0)
    with less.prems show ?thesis
      by (auto split: if_splits list.splits option.splits dest!: step [rotated])
  qed
qed

lemma length_skip_ws: "length (skip_ws s) \<le> length s"
  by (simp add: skip_ws_def length_dropWhile_le)

text \<open>
  The scanner: \<open>scan_once\<close> reads one value at the head of the text and returns it with the
  rest of the text; \<open>parse_array\<close> and \<open>parse_object\<close> read the items of a container
  whose opening bracket and first white space are consumed, carrying the items read so
  far. The tests \<open>length r' < length s\<close> on the text left after an item only make the
  recursion visibly well-founded: an item is never empty, so they always hold
  (\<open>parse_array_unguarded\<close>, \<open>parse_object_unguarded\<close> below).
\<close>

function scan_once :: "ustring \<Rightarrow> (json \<times> ustring) option"
  and parse_array :: "json list \<Rightarrow> ustring \<Rightarrow> (json \<times> ustring) option"
  and parse_object :: "pydict \<Rightarrow> ustring \<Rightarrow> (json \<times> ustring) option"
where
  "scan_once [] = None"
| "scan_once (c # r) =
     (if c = 0x22 then
        (case scanstring [] r of None \<Rightarrow> None | Some (t, r') \<Rightarrow> Some (JStr t, r'))
      else if c = 0x7B then
        (case skip_ws r of
           [] \<Rightarrow> None
         | d # r' \<Rightarrow> if d = 0x7D then Some (JObj [], r') else parse_object [] (d # r'))
      else if c = 0x5B then
        (case skip_ws r of
           [] \<Rightarrow> None
         | d # r' \<Rightarrow> if d = 0x5D then Some (JArr [], r') else parse_array [] (d # r'))
      else scan_atom (c # r))"
| "parse_array vals s =
     (case scan_once s of
        None \<Rightarrow> None
      | Some (v, r) \<Rightarrow>
          (case skip_ws r of
             [] \<Rightarrow> None
           | d # r' \<Rightarrow>
               if d = 0x5D then Some (JArr (vals @ [v]), r')
               else if d = 0x2C \<and> length r' < length s
               then parse_array (vals @ [v]) (skip_ws r')
               else None))"
| "parse_object pairs [] = None"
| "parse_object pairs (q # r) =
     (if q \<noteq> 0x22 then None
      else
        (case scanstring [] r of
           None \<Rightarrow> None
         | Some (k, r1) \<Rightarrow>
             (case skip_ws r1 of
                [] \<Rightarrow> None
              | col # r2 \<Rightarrow>
                  if col \<noteq> 0x3A then None
                  else
                    (case scan_once (skip_ws r2) of
                       None \<Rightarrow> None
                     | Some (v, r3) \<Rightarrow>
                         (case skip_ws r3 of
                            [] \<Rightarrow> None
                          | d # r4 \<Rightarrow>
                              if d = 0x7D then Some (JObj (AList.update k v pairs), r4)
                              else if d = 0x2C \<and> length r4 < length r
                              then parse_object (AList.update k v pairs) (skip_ws r4)
                              else None)))))"
  by pat_completeness auto

termination
proof (relation "measure (\<lambda>x. case x of
          Inl s \<Rightarrow> 2 * length s
        | Inr (Inl (vals, s)) \<Rightarrow> 2 * length s + 1
        | Inr (Inr (pairs, s)) \<Rightarrow> 2 * length s + 1)", goal_cases)
  case 1
  then show ?case by simp
next
  case (2 c r d r')
  then show ?case using length_skip_ws [of r] by simp
next
  case (3 c r d r')
  then show ?case using length_skip_ws [of r] by simp
next
  case (4 vals s)
  then show ?case by simp
next
  case (5 vals s x v r d r')
  then show ?case using length_skip_ws [of r'] by simp
next
  case (6 pairs q r x k r1 col r2)
  then show ?case
    using length_skip_ws [of r1] length_skip_ws [of r2] scanstring_length [of "[]" r k r1]
    by simp
next
  case (7 pairs q r x k r1 col r2 y v r3 d r4)
  then show ?case using length_skip_ws [of r4] by simp
qed

text \<open>
  \<^verbatim>\<open>json.loads(s)\<close>: white space, one value, white space, end of text.
\<close>

definition json_loads :: "ustring \<Rightarrow> json option" where
  "json_loads s =
     (case scan_once (skip_ws s) of
        None \<Rightarrow> None
      | Some (v, r) \<Rightarrow> if skip_ws r = [] then Some v else None)"

section \<open>The size of a value and of the text it was read from\<close>

text \<open>
  \<open>jsize\<close> counts the nodes of a value and the characters of its strings. A value read by
  \<open>scan_once\<close> is never larger than the text consumed for it; the sanitizer's recursion
  into a decoded string rests on this.
\<close>

fun jsize :: "json \<Rightarrow> nat" where
  "jsize (JStr s) = Suc (length s)"
| "jsize (JArr xs) = Suc (sum_list (map jsize xs))"
| "jsize (JObj d) = Suc (sum_list (map (\<lambda>(k, v). jsize v) d))"
| "jsize v = 1"

lemma jsize_pos: "0 < jsize v"
  by (cases v) simp_all

lemma jsize_update:
  "sum_list (map (\<lambda>(k, v). jsize v) (AList.update k v d)) \<le> sum_list (map (\<lambda>(k, v). jsize v) d) + jsize v"
  by (induction d) (auto simp: AList.update.simps)

lemma match_unsigned_length:
  assumes "match_unsigned neg s = Some (v, r)"
  shows "jsize v = 1 \<and> length r < length s"
proof -
  from assms obtain c r0 where s: "s = c # r0" and c: "is_digit c"
    by (auto simp: match_unsigned_def split: list.splits if_splits)
  define ip where "ip = (if c = 48 then [c] else takeWhile is_digit s)"
  have ip: "0 < length ip" using s c by (simp add: ip_def)
  from assms s c have "jsize v = 1"
    by (auto simp: match_unsigned_def Let_def split: if_splits)
  moreover from assms s c have "length r \<le> length (drop (length ip) s)"
    unfolding match_unsigned_def Let_def ip_def
    by (auto split: if_splits)
  moreover have "length (drop (length ip) s) < length s"
    using ip s by simp
  ultimately show ?thesis by simp
qed

lemma match_number_length:
  "match_number s = Some (v, r) \<Longrightarrow> jsize v = 1 \<and> length r < length s"
  using match_unsigned_length [of True "drop 1 s" v r] match_unsigned_length [of False s v r]
  by (auto simp: match_number_def split: if_splits)

lemma startswith_Cons: "startswith s (a # p) \<Longrightarrow> 0 < length s"
  by (cases s) (simp_all add: startswith_def)

lemma scan_atom_length:
  assumes "scan_atom s = Some (v, r)"
  shows "jsize v = 1 \<and> length r < length s"
proof (cases "match_number s = Some (v, r)")
  case True
  then show ?thesis by (rule match_number_length)
next
  case False
  with assms obtain p n where "startswith s p" "p \<noteq> []" "r = drop n s" "0 < n" "jsize v = 1"
    unfolding scan_atom_def by (auto split: if_splits)
  moreover then have "0 < length s" by (cases p) (auto dest: startswith_Cons)
  ultimately show ?thesis by simp
qed

lemma scan_consumes:
  "scan_once s = Some (v, r) \<Longrightarrow> jsize v + length r \<le> length s"
  "parse_array vals s0 = Some (v1, r1) \<Longrightarrow> jsize v1 + length r1 \<le> jsize (JArr vals) + length s0"
  "parse_object pairs s2 = Some (v2, r2) \<Longrightarrow> jsize v2 + length r2 \<le> jsize (JObj pairs) + length s2"
proof (induction s and vals s0 and pairs s2 arbitrary: v r and v1 r1 and v2 r2
       rule: scan_once_parse_array_parse_object.induct)
  case 1
  then show ?case by simp
next
  case (2 c r0)
  show ?case
  proof -
    consider (str) "c = 0x22" | (obj) "c = 0x7B" | (arr) "c = 0x5B"
      | (atom) "c \<noteq> 0x22" "c \<noteq> 0x7B" "c \<noteq> 0x5B" by blast
    then show ?thesis
    proof cases
      case str
      with "2.prems" obtain t where "scanstring [] r0 = Some (t, r)" "v = JStr t"
        by (auto split: option.splits)
      then show ?thesis using scanstring_length [of "[]" r0 t r] by simp
    next
      case obj
      show ?thesis
      proof (cases "skip_ws r0")
        case Nil
        with obj "2.prems" show ?thesis by simp
      next
        case (Cons d r')
        show ?thesis
        proof (cases "d = 0x7D")
          case True
          with obj Cons "2.prems" length_skip_ws [of r0] show ?thesis by auto
        next
          case False
          with obj Cons "2.prems" have "parse_object [] (d # r') = Some (v, r)" by simp
          from "2.IH"(1) [OF _ _ Cons False this] obj
          show ?thesis using length_skip_ws [of r0] Cons by simp
        qed
      qed
    next
      case arr
      show ?thesis
      proof (cases "skip_ws r0")
        case Nil
        with arr "2.prems" show ?thesis by simp
      next
        case (Cons d r')
        show ?thesis
        proof (cases "d = 0x5D")
          case True
          with arr Cons "2.prems" length_skip_ws [of r0] show ?thesis by auto
        next
          case False
          with arr Cons "2.prems" have "parse_array [] (d # r') = Some (v, r)" by simp
          from "2.IH"(2) [OF _ _ _ Cons False this] arr
          show ?thesis using length_skip_ws [of r0] Cons by simp
        qed
      qed
    next
      case atom
      with "2.prems" have "scan_atom (c # r0) = Some (v, r)" by simp
      from scan_atom_length [OF this] show ?thesis by simp
    qed
  qed
next
  case (3 vals s)
  from "3.prems" obtain v r where sc: "scan_once s = Some (v, r)"
    by (auto simp: parse_array.simps [of vals s] split: option.splits)
  note le = "3.IH"(1) [OF sc]
  from "3.prems" sc obtain d r' where sk: "skip_ws r = d # r'"
    by (auto simp: parse_array.simps [of vals s] split: list.splits)
  have r': "length r' < length r" using length_skip_ws [of r] sk by simp
  show ?case
  proof (cases "d = 0x5D")
    case True
    with "3.prems" sc sk have "v1 = JArr (vals @ [v])" "r1 = r'"
      by (auto simp: parse_array.simps [of vals s])
    then show ?thesis using le r' by simp
  next
    case False
    with "3.prems" sc sk have g: "d = 0x2C \<and> length r' < length s"
      and rec: "parse_array (vals @ [v]) (skip_ws r') = Some (v1, r1)"
      by (auto simp: parse_array.simps [of vals s] split: if_splits)
    from "3.IH"(2) [OF sc refl sk False g rec]
    show ?thesis using le r' length_skip_ws [of r'] by simp
  qed
next
  case (4 pairs)
  then show ?case by simp
next
  case (5 pairs q r)
  from "5.prems" have q: "q = 0x22" by (auto split: if_splits)
  from "5.prems" q obtain k ra where ss: "scanstring [] r = Some (k, ra)"
    by (auto split: option.splits)
  from "5.prems" q ss obtain col rb where sk1: "skip_ws ra = col # rb"
    by (auto split: list.splits)
  from "5.prems" q ss sk1 have col: "col = 0x3A" by (auto split: if_splits)
  from "5.prems" q ss sk1 col obtain v rc where sc: "scan_once (skip_ws rb) = Some (v, rc)"
    by (auto split: option.splits)
  from "5.prems" q ss sk1 col sc obtain d rd where sk2: "skip_ws rc = d # rd"
    by (auto split: list.splits)
  have q': "\<not> q \<noteq> 0x22" and col': "\<not> col \<noteq> 0x3A" using q col by simp_all
  note le = "5.IH"(1) [OF q' ss refl sk1 col' sc]
  have l1: "length ra < length r" using scanstring_length [OF ss] by simp
  have l2: "length rb < length ra" using length_skip_ws [of ra] sk1 by simp
  have l3: "length (skip_ws rb) \<le> length rb" by (rule length_skip_ws)
  have l4: "length rd < length rc" using length_skip_ws [of rc] sk2 by simp
  show ?case
  proof (cases "d = 0x7D")
    case True
    with "5.prems" q ss sk1 col sc sk2 have "v2 = JObj (AList.update k v pairs)" "r2 = rd"
      by auto
    then show ?thesis using le l1 l2 l3 l4 jsize_update [of k v pairs] by simp
  next
    case False
    with "5.prems" q ss sk1 col sc sk2 have g: "d = 0x2C \<and> length rd < length r"
      and rec: "parse_object (AList.update k v pairs) (skip_ws rd) = Some (v2, r2)"
      by (auto split: if_splits)
    from "5.IH"(2) [OF q' ss refl sk1 col' sc refl sk2 False g rec]
    show ?thesis using le l1 l2 l3 l4 length_skip_ws [of rd] jsize_update [of k v pairs] by simp
  qed
qed

lemma json_loads_size: "json_loads s = Some v \<Longrightarrow> jsize v \<le> length s"
proof -
  assume "json_loads s = Some v"
  then obtain r where "scan_once (skip_ws s) = Some (v, r)"
    by (auto simp: json_loads_def split: option.splits if_splits)
  from scan_consumes(1) [OF this] length_skip_ws [of s] show ?thesis by simp
qed

lemma length_str_strip: "length (str_strip s) \<le> length s"
proof -
  have "length (str_strip s) \<le> length (dropWhile is_space s)"
    using length_dropWhile_le [of is_space "rev (dropWhile is_space s)"]
    by (simp add: str_strip_def)
  also have "\<dots> \<le> length s" by (rule length_dropWhile_le)
  finally show ?thesis .
qed

lemma jsize_member: "x \<in> set xs \<Longrightarrow> jsize x \<le> sum_list (map jsize xs)"
  by (induction xs) auto

lemma jsize_item: "(k, v) \<in> set d \<Longrightarrow> jsize v \<le> sum_list (map (\<lambda>(k, v). jsize v) d)"
  by (induction d) auto

section \<open>The schema sanitizer\<close>

text \<open>
  \<^verbatim>\<open>recursive_sanitize\<close> (lines 90 to 118). \<open>bracketed\<close> is the test of line 93, \<open>fixups\<close>
  the three repairs applied to \<^verbatim>\<open>new_data\<close> in the source's order: \<open>fix_type_name\<close>
  (lines 110 and 111), \<open>fix_children\<close> (112 and 113), \<open>fix_props\<close> (114 and 115).
  The \<^verbatim>\<open>try\<close> of line 94 covers \<^verbatim>\<open>json.loads\<close>; on any exception the stripped string is
  returned (line 96). The loops of lines 100 and 107 are folds from the left.
\<close>

definition fix_type_name :: "pydict \<Rightarrow> pydict" where
  "fix_type_name new_data =
     (if (has_key new_data (ustr ''children'') \<or> has_key new_data (ustr ''props''))
         \<and> \<not> has_key new_data (ustr ''type_name'')
      then AList.update (ustr ''type_name'') (JStr (ustr ''VStack'')) new_data
      else new_data)"

definition fix_children :: "pydict \<Rightarrow> pydict" where
  "fix_children new_data =
     (case map_of new_data (ustr ''children'') of
        None \<Rightarrow> new_data
      | Some c \<Rightarrow>
          if \<not> is_list c then AList.update (ustr ''children'') (JArr []) new_data
          else new_data)"

definition fix_props :: "pydict \<Rightarrow> pydict" where
  "fix_props new_data =
     (case map_of new_data (ustr ''props'') of
        None \<Rightarrow> new_data
      | Some p \<Rightarrow>
          if \<not> is_dict p then AList.update (ustr ''props'') (JObj []) new_data
          else new_data)"

definition fixups :: "pydict \<Rightarrow> pydict" where
  "fixups new_data = fix_props (fix_children (fix_type_name new_data))"

definition bracketed :: "ustring \<Rightarrow> bool" where
  "bracketed data =
     ((startswith data (ustr ''{'') \<and> endswith data (ustr ''}''))
      \<or> (startswith data (ustr ''['') \<and> endswith data (ustr '']'')))"

function (domintros) recursive_sanitize :: "json \<Rightarrow> json" where
  "recursive_sanitize (JStr data0) =
     (let data = str_strip data0
      in if bracketed data then
           (case json_loads data of
              Some parsed \<Rightarrow> recursive_sanitize parsed
            | None \<Rightarrow> JStr data)
         else JStr data)"
| "recursive_sanitize (JArr data) =
     JArr (foldl (\<lambda>cleaned item.
                    let sanitized = recursive_sanitize item
                    in if is_dict sanitized then cleaned @ [sanitized] else cleaned)
                 [] data)"
| "recursive_sanitize (JObj data) =
     JObj (fixups (foldl (\<lambda>new_data (k, v). AList.update k (recursive_sanitize v) new_data)
                         [] data))"
| "recursive_sanitize JNull = JNull"
| "recursive_sanitize (JBool b) = JBool b"
| "recursive_sanitize (JInt i) = JInt i"
| "recursive_sanitize (JFloat f) = JFloat f"
  by pat_completeness auto

text \<open>
  Every recursive call is on a value of smaller \<open>jsize\<close>: the value decoded from a string is
  no larger than the string, an element is smaller than its container. So the recursion
  ends on every value.
\<close>

lemma recursive_sanitize_total: "recursive_sanitize_dom v"
proof (induction v rule: measure_induct_rule [of jsize])
  case (less v)
  show ?case
  proof (cases v)
    case (JStr s)
    have "recursive_sanitize_dom parsed" if "json_loads (str_strip s) = Some parsed" for parsed
      using json_loads_size [OF that] length_str_strip [of s] JStr
      by (intro less.IH) simp
    then show ?thesis unfolding JStr by (intro recursive_sanitize.domintros)
  next
    case (JArr xs)
    have "recursive_sanitize_dom x" if "x \<in> set xs" for x
      using jsize_member [OF that] JArr by (intro less.IH) simp
    then show ?thesis unfolding JArr by (intro recursive_sanitize.domintros)
  next
    case (JObj d)
    have "recursive_sanitize_dom x" if "(k, x) \<in> set d" for k x
      using jsize_item [OF that] JObj by (intro less.IH) simp
    then show ?thesis unfolding JObj by (intro recursive_sanitize.domintros) 
  qed (auto intro: recursive_sanitize.domintros)
qed

termination recursive_sanitize
  using recursive_sanitize_total by blast

text \<open>The mapping \<^verbatim>\<open>new_data\<close> after the loop of lines 107 and 108.\<close>

definition sanitize_values :: "pydict \<Rightarrow> pydict" where
  "sanitize_values d =
     foldl (\<lambda>new_data (k, v). AList.update k (recursive_sanitize v) new_data) [] d"

text \<open>A mapping the three repairs leave alone.\<close>

definition repaired :: "pydict \<Rightarrow> bool" where
  "repaired d =
     ((case map_of d (ustr ''children'') of None \<Rightarrow> True | Some c \<Rightarrow> is_list c)
      \<and> (case map_of d (ustr ''props'') of None \<Rightarrow> True | Some p \<Rightarrow> is_dict p)
      \<and> (if has_key d (ustr ''children'') \<or> has_key d (ustr ''props'')
         then has_key d (ustr ''type_name'') else True))"

text \<open>
  The structural guarantee on a component node: a mapping whose \<^verbatim>\<open>children\<close>, when present, is
  a sequence of mappings that are component nodes themselves, and whose \<^verbatim>\<open>props\<close>, when
  present, is a mapping.
\<close>

function component_node :: "json \<Rightarrow> bool" where
  "component_node (JObj d) =
     ((case map_of d (ustr ''children'') of
         None \<Rightarrow> True
       | Some c \<Rightarrow> (case c of JArr xs \<Rightarrow> list_all component_node xs | _ \<Rightarrow> False))
      \<and> (case map_of d (ustr ''props'') of None \<Rightarrow> True | Some p \<Rightarrow> is_dict p))"
| "component_node (JArr xs) = False"
| "component_node (JStr s) = False"
| "component_node JNull = False"
| "component_node (JBool b) = False"
| "component_node (JInt i) = False"
| "component_node (JFloat f) = False"
  by pat_completeness auto

termination
proof (relation "measure jsize", goal_cases)
  case 1
  then show ?case by simp
next
  case (2 d c xs x)
  from 2(1) have "(ustr ''children'', c) \<in> set d" by (rule map_of_SomeD)
  from jsize_item [OF this] 2(2) jsize_member [OF 2(3)] show ?case by simp
qed

text \<open>What every output of the sanitizer satisfies.\<close>

definition sane_output :: "json \<Rightarrow> bool" where
  "sane_output v =
     (case v of
        JArr xs \<Rightarrow> list_all component_node xs
      | JObj d \<Rightarrow> component_node v
      | _ \<Rightarrow> True)"

section \<open>The response extractor\<close>

text \<open>
  \<^verbatim>\<open>extract_json_from_text\<close> (lines 79 to 88). \<open>narrow\<close> is lines 80 to 82: after the test
  \<^verbatim>\<open>"```json" in text\<close> both subscripts are in range. \<open>None\<close> is the \<^verbatim>\<open>None\<close> the function
  returns, also from its \<^verbatim>\<open>except\<close>.
\<close>

definition narrow :: "ustring \<Rightarrow> ustring" where
  "narrow text0 =
     (let text = str_strip text0
      in if contains text (ustr ''```json'')
         then str_strip (str_split (str_split text (ustr ''```json'') ! 1) (ustr ''```'') ! 0)
         else text)"

definition extract_json_from_text :: "ustring \<Rightarrow> json option" where
  "extract_json_from_text text0 =
     (let text = narrow text0
      in case str_find text (ustr ''{'') of
           None \<Rightarrow> None
         | Some start \<Rightarrow>
             (case str_rfind text (ustr ''}'') of
                None \<Rightarrow> None
              | Some end \<Rightarrow> json_loads (slice text start (end + 1))))"

text \<open>
  The span from the first opening brace to the last closing brace, in the words of the
  specification: drop what follows the last \<^verbatim>\<open>}\<close>, then what precedes the first \<^verbatim>\<open>{\<close>.
\<close>

definition brace_span :: "ustring \<Rightarrow> ustring" where
  "brace_span t = dropWhile (\<lambda>c. c \<noteq> 0x7B) (rev (dropWhile (\<lambda>c. c \<noteq> 0x7D) (rev t)))"

text \<open>
  The text before the first occurrence of a separator (all of it when there is none), and
  the text after that occurrence.
\<close>

definition before_first :: "ustring \<Rightarrow> ustring \<Rightarrow> ustring" where
  "before_first sep s = (case str_find s sep of None \<Rightarrow> s | Some i \<Rightarrow> take i s)"

definition after_first :: "ustring \<Rightarrow> ustring \<Rightarrow> ustring" where
  "after_first sep s = (case str_find s sep of None \<Rightarrow> [] | Some i \<Rightarrow> drop (i + length sep) s)"

section \<open>Python operations on JSON values\<close>

text \<open>\<^verbatim>\<open>v[k]\<close> with a string key.\<close>

fun getitem_str :: "json \<Rightarrow> ustring \<Rightarrow> py_error + json" where
  "getitem_str (JObj d) k = (case map_of d k of None \<Rightarrow> Inl KeyError | Some x \<Rightarrow> Inr x)"
| "getitem_str v k = Inl TypeError"

text \<open>\<^verbatim>\<open>v[i]\<close> with an index that is not negative. A decoded mapping has string keys only.\<close>

fun getitem_int :: "json \<Rightarrow> nat \<Rightarrow> py_error + json" where
  "getitem_int (JArr xs) i = (if i < length xs then Inr (xs ! i) else Inl IndexError)"
| "getitem_int (JStr s) i = (if i < length s then Inr (JStr [s ! i]) else Inl IndexError)"
| "getitem_int (JObj d) i = Inl KeyError"
| "getitem_int v i = Inl TypeError"

text \<open>\<^verbatim>\<open>v.get(k, default)\<close>: only a mapping has the method.\<close>

fun py_get :: "json \<Rightarrow> ustring \<Rightarrow> json \<Rightarrow> py_error + json" where
  "py_get (JObj d) k dflt = (case map_of d k of None \<Rightarrow> Inr dflt | Some x \<Rightarrow> Inr x)"
| "py_get v k dflt = Inl AttributeError"

text \<open>\<^verbatim>\<open>len(v)\<close>.\<close>

fun py_len :: "json \<Rightarrow> py_error + nat" where
  "py_len (JStr s) = Inr (length s)"
| "py_len (JArr xs) = Inr (length xs)"
| "py_len (JObj d) = Inr (length d)"
| "py_len v = Inl TypeError"

text \<open>\<^verbatim>\<open>k in v\<close> for a string \<open>k\<close>: a key of a mapping, an element of a sequence, a substring.\<close>

fun py_in :: "ustring \<Rightarrow> json \<Rightarrow> py_error + bool" where
  "py_in k (JObj d) = Inr (has_key d k)"
| "py_in k (JArr xs) = Inr (JStr k \<in> set xs)"
| "py_in k (JStr s) = Inr (contains s k)"
| "py_in k v = Inl TypeError"

text \<open>
  The truth value of the \<^verbatim>\<open>float\<close> a literal denotes. A decimal literal with digits \<open>m\<close> and
  decimal exponent \<open>e\<close> denotes zero when \<open>m\<close> is zero or \<open>m * 10 ^ e\<close> is at most
  \<open>2 ^ - 1075\<close>, which rounds to zero.
\<close>

definition float_is_zero :: "ustring \<Rightarrow> bool" where
  "float_is_zero lit =
     (if lit = ustr ''NaN'' \<or> lit = ustr ''Infinity'' \<or> lit = ustr ''-Infinity'' then False
      else
        (let body = (if startswith lit (ustr ''-'') then drop 1 lit else lit);
             ip = takeWhile is_digit body;
             r1 = drop (length ip) body;
             fr = fraction_part r1;
             ex = exponent_part (drop (length fr) r1);
             m = digits_value (ip @ drop 1 fr);
             ev = (if ex = [] then 0
                   else if startswith (drop 1 ex) (ustr ''-'') then - digits_value (drop 2 ex)
                   else if startswith (drop 1 ex) (ustr ''+'') then digits_value (drop 2 ex)
                   else digits_value (drop 1 ex));
             e = ev - int (length (drop 1 fr))
         in m = 0 \<or> (e < 0 \<and> m * 2 ^ 1075 \<le> 10 ^ nat (- e))))"

text \<open>The truth value of a value, as \<^verbatim>\<open>if v:\<close> and \<^verbatim>\<open>not v\<close> read it.\<close>

fun py_truthy :: "json \<Rightarrow> bool" where
  "py_truthy JNull = False"
| "py_truthy (JBool b) = b"
| "py_truthy (JInt i) = (i \<noteq> 0)"
| "py_truthy (JFloat f) = (\<not> float_is_zero f)"
| "py_truthy (JStr s) = (s \<noteq> [])"
| "py_truthy (JArr xs) = (xs \<noteq> [])"
| "py_truthy (JObj d) = (d \<noteq> [])"

text \<open>
  \<^verbatim>\<open>str(v)\<close> and the \<^verbatim>\<open>{v}\<close> of an f-string: a string is itself. The text Python gives for a
  value that is not a string is the parameter \<open>repr\<close>: what is proved holds whatever
  that text is.
\<close>

fun py_str :: "(json \<Rightarrow> ustring) \<Rightarrow> json \<Rightarrow> ustring" where
  "py_str repr (JStr s) = s"
| "py_str repr v = repr v"

text \<open>Sequencing of steps that may raise.\<close>

definition bind_err :: "py_error + 'a \<Rightarrow> ('a \<Rightarrow> py_error + 'b) \<Rightarrow> py_error + 'b" where
  "bind_err m f = (case m of Inl e \<Rightarrow> Inl e | Inr x \<Rightarrow> f x)"

section \<open>The protocol client\<close>

text \<open>
  The subprocess as the client sees it: the messages written to its input with \<^verbatim>\<open>_send\<close>,
  the lines it has still to write on its output, each as \<^verbatim>\<open>readline\<close> returns it, and the
  number of writes its input still accepts. A subprocess that has exited, or has closed its
  input, accepts none: the write of line 55 or the flush of line 56 raises
  \<^verbatim>\<open>BrokenPipeError\<close>. The serialisation by \<^verbatim>\<open>json.dumps\<close> is not modelled, a message is
  recorded as the value sent.
\<close>

record mcp_process =
  sent :: "json list"
  stdout_lines :: "ustring list"
  writes_left :: nat

text \<open>\<^verbatim>\<open>_send\<close> (lines 54 to 56): the process afterwards, or the exception.\<close>

definition send :: "mcp_process \<Rightarrow> json \<Rightarrow> py_error + mcp_process" where
  "send p data =
     (if writes_left p = 0 then Inl BrokenPipeError
      else Inr (p\<lparr>sent := sent p @ [data], writes_left := writes_left p - 1\<rparr>))"

text \<open>
  What \<^verbatim>\<open>_recv\<close> returns for the lines still to come (lines 58 to 61): \<^verbatim>\<open>readline\<close> gives
  the empty string at the end of the output, and \<^verbatim>\<open>json.loads\<close> raises on a line it rejects.
\<close>

definition reply_of :: "ustring list \<Rightarrow> py_error + json" where
  "reply_of lines =
     (let line = (case lines of [] \<Rightarrow> [] | l # rest \<Rightarrow> l)
      in if line = [] then Inr (JObj [])
         else (case json_loads line of None \<Rightarrow> Inl JSONDecodeError | Some v \<Rightarrow> Inr v))"

definition recv :: "mcp_process \<Rightarrow> (py_error + json) \<times> mcp_process" where
  "recv p = (reply_of (stdout_lines p), p\<lparr>stdout_lines := tl (stdout_lines p)\<rparr>)"

definition init_req :: json where
  "init_req =
     JObj [(ustr ''jsonrpc'', JStr (ustr ''2.0'')), (ustr ''id'', JInt 1),
           (ustr ''method'', JStr (ustr ''initialize'')),
           (ustr ''params'',
            JObj [(ustr ''protocolVersion'', JStr (ustr ''2024-11-05'')),
                  (ustr ''capabilities'', JObj []),
                  (ustr ''clientInfo'',
                   JObj [(ustr ''name'', JStr (ustr ''magic-ide'')),
                         (ustr ''version'', JStr (ustr ''1.0''))])])]"

definition initialized_note :: json where
  "initialized_note =
     JObj [(ustr ''jsonrpc'', JStr (ustr ''2.0'')),
           (ustr ''method'', JStr (ustr ''notifications/initialized''))]"

definition tools_req :: json where
  "tools_req =
     JObj [(ustr ''jsonrpc'', JStr (ustr ''2.0'')), (ustr ''id'', JInt 2),
           (ustr ''method'', JStr (ustr ''tools/list''))]"

text \<open>
  \<^verbatim>\<open>_handshake\<close> (lines 35 to 48): the tool list stored in \<^verbatim>\<open>self.tools\<close> and the process
  afterwards, or the exception that leaves the method. Line 48 takes \<^verbatim>\<open>len(self.tools)\<close>.
\<close>

definition handshake :: "mcp_process \<Rightarrow> py_error + json \<times> mcp_process" where
  "handshake p =
     bind_err (send p init_req) (\<lambda>p1.
       let (r1, p2) = recv p1
       in bind_err r1 (\<lambda>_.
            bind_err (send p2 initialized_note) (\<lambda>p3.
              bind_err (send p3 tools_req) (\<lambda>p4.
                let (r2, p5) = recv p4
                in bind_err r2 (\<lambda>res.
                     bind_err (py_get res (ustr ''result'') (JObj [])) (\<lambda>result.
                       bind_err (py_get result (ustr ''tools'') (JArr [])) (\<lambda>tools.
                         bind_err (py_len tools) (\<lambda>_. Inr (tools, p5)))))))))"

text \<open>
  The lookup \<^verbatim>\<open>res["result"]["content"][0]["text"]\<close> of line 73, and lines 70 to 75 of
  \<^verbatim>\<open>call_tool\<close> on the reply \<open>res\<close>.
\<close>

definition nested_text :: "json \<Rightarrow> py_error + json" where
  "nested_text res =
     bind_err (getitem_str res (ustr ''result'')) (\<lambda>result.
       bind_err (getitem_str result (ustr ''content'')) (\<lambda>content.
         bind_err (getitem_int content 0) (\<lambda>first.
           getitem_str first (ustr ''text''))))"

definition error_prefix :: ustring where
  "error_prefix = 0x274C # ustr '' Error: ''"

definition tool_result :: "(json \<Rightarrow> ustring) \<Rightarrow> json \<Rightarrow> py_error + json" where
  "tool_result repr res =
     bind_err (py_in (ustr ''error'') res) (\<lambda>has_error.
       if has_error then
         bind_err (getitem_str res (ustr ''error'')) (\<lambda>err.
           bind_err (getitem_str err (ustr ''message'')) (\<lambda>message.
             Inr (JStr (error_prefix @ py_str repr message))))
       else
         (case nested_text res of
            Inr text \<Rightarrow> Inr text
          | Inl e \<Rightarrow>
              if e = KeyError \<or> e = IndexError then Inr (JStr (py_str repr res))
              else Inl e))"

definition call_tool ::
  "(json \<Rightarrow> ustring) \<Rightarrow> mcp_process \<Rightarrow> json \<Rightarrow> json \<Rightarrow> (py_error + json) \<times> mcp_process" where
  "call_tool repr p name args =
     (let req = JObj [(ustr ''jsonrpc'', JStr (ustr ''2.0'')), (ustr ''id'', JInt 3),
                      (ustr ''method'', JStr (ustr ''tools/call'')),
                      (ustr ''params'', JObj [(ustr ''name'', name), (ustr ''arguments'', args)])]
      in case send p req of
           Inl e \<Rightarrow> (Inl e, p)
         | Inr p1 \<Rightarrow> (let (r, p2) = recv p1 in (bind_err r (tool_result repr), p2)))"

section \<open>The tool catalog resolver\<close>

definition default_components :: json where
  "default_components =
     JArr [JStr (ustr ''VStack''), JStr (ustr ''HStack''), JStr (ustr ''ZStack''),
           JStr (ustr ''Button''), JStr (ustr ''Label''), JStr (ustr ''Input''),
           JStr (ustr ''Image''), JStr (ustr ''Chart'')]"

text \<open>The lookup of line 157.\<close>

definition schema_enum_of :: "json \<Rightarrow> py_error + json" where
  "schema_enum_of tools =
     bind_err (getitem_int tools 0) (\<lambda>tool.
       bind_err (py_get tool (ustr ''inputSchema'') (JObj [])) (\<lambda>schema.
         bind_err (py_get schema (ustr ''properties'') (JObj [])) (\<lambda>props.
           bind_err (py_get props (ustr ''type_name'') (JObj [])) (\<lambda>tn.
             py_get tn (ustr ''enum'') JNull))))"

text \<open>
  Lines 147 to 162 of \<^verbatim>\<open>main\<close>: the value of \<^verbatim>\<open>allowed_components\<close> after the \<^verbatim>\<open>try\<close>. Line
  159 takes \<^verbatim>\<open>len(schema_enum)\<close> before line 160 assigns, and \<^verbatim>\<open>except Exception\<close> catches
  whatever the block raises.
\<close>

definition resolve_catalog :: "json \<Rightarrow> json" where
  "resolve_catalog tools =
     (if py_truthy tools then
        (case schema_enum_of tools of
           Inl e \<Rightarrow> default_components
         | Inr schema_enum \<Rightarrow>
             if py_truthy schema_enum then
               (case py_len schema_enum of
                  Inl e \<Rightarrow> default_components
                | Inr n \<Rightarrow> schema_enum)
             else default_components)
      else default_components)"

text \<open>
  A reply that is a mapping without a tool list: no \<^verbatim>\<open>result\<close>, or a \<^verbatim>\<open>result\<close> mapping
  without \<^verbatim>\<open>tools\<close>.
\<close>

definition reply_without_tools :: "json \<Rightarrow> bool" where
  "reply_without_tools res =
     (case res of
        JObj d \<Rightarrow>
          (case map_of d (ustr ''result'') of
             None \<Rightarrow> True
           | Some result \<Rightarrow>
               (case result of JObj r \<Rightarrow> map_of r (ustr ''tools'') = None | _ \<Rightarrow> False))
      | _ \<Rightarrow> False)"

text \<open>
  A reply on which the lookups of line 47 raise \<^verbatim>\<open>AttributeError\<close>: it is not a mapping, or
  its \<^verbatim>\<open>result\<close> is not one.
\<close>

definition result_not_mapping :: "json \<Rightarrow> bool" where
  "result_not_mapping res =
     (case res of
        JObj d \<Rightarrow>
          (case map_of d (ustr ''result'') of
             None \<Rightarrow> False
           | Some result \<Rightarrow> \<not> is_dict result)
      | _ \<Rightarrow> True)"

section \<open>The conversation orchestrator\<close>

text \<open>Iterating over a value with \<^verbatim>\<open>for\<close>: the items of a sequence, the keys of a mapping, the characters of a string.\<close>

fun py_iter :: "json \<Rightarrow> py_error + json list" where
  "py_iter (JArr xs) = Inr xs"
| "py_iter (JObj d) = Inr (map (\<lambda>(k, v). JStr k) d)"
| "py_iter (JStr s) = Inr (map (\<lambda>c. JStr [c]) s)"
| "py_iter v = Inl TypeError"

definition user_message :: "ustring \<Rightarrow> json" where
  "user_message user_input = JObj [(ustr ''role'', JStr (ustr ''user'')), (ustr ''content'', JStr user_input)]"

definition tool_message :: "json \<Rightarrow> json" where
  "tool_message rust_code = JObj [(ustr ''role'', JStr (ustr ''tool'')), (ustr ''content'', rust_code)]"

text \<open>
  The loop of lines 229 to 257 over the tool calls. \<open>generate\<close> stands for lines 234 to 254
  (sanitizing the arguments, dispatching the call to the subprocess, saving or showing the
  result): from the state \<open>p\<close> of the outside world, the name and the arguments it gives the
  generated text and the new state, or raises.
\<close>

fun run_tool_calls ::
  "('p \<Rightarrow> json \<Rightarrow> json \<Rightarrow> py_error + json \<times> 'p) \<Rightarrow> json \<Rightarrow> 'p \<Rightarrow> json list \<Rightarrow> json list
     \<Rightarrow> py_error + json list \<times> 'p" where
  "run_tool_calls generate response p messages [] = Inr (messages, p)"
| "run_tool_calls generate response p messages (tool # rest) =
     bind_err (getitem_str tool (ustr ''function'')) (\<lambda>fn.
       bind_err (getitem_str fn (ustr ''name'')) (\<lambda>fn_name.
         bind_err (getitem_str fn (ustr ''arguments'')) (\<lambda>fn_args.
           if fn_name = JStr (ustr ''generate_oxid_ui'') then
             bind_err (generate p fn_name fn_args) (\<lambda>(rust_code, p').
               bind_err (getitem_str response (ustr ''message'')) (\<lambda>message.
                 run_tool_calls generate response p'
                   (messages @ [message, tool_message rust_code]) rest))
           else run_tool_calls generate response p messages rest)))"

text \<open>Lines 222 to 226: the tool calls after the fallback to the text of the reply.\<close>

definition synthesize_tool_calls :: "json \<Rightarrow> json \<Rightarrow> py_error + json" where
  "synthesize_tool_calls response tool_calls =
     (if \<not> py_truthy tool_calls then
        bind_err (getitem_str response (ustr ''message'')) (\<lambda>message.
          bind_err (getitem_str message (ustr ''content'')) (\<lambda>content.
            case content of
              JStr s \<Rightarrow>
                (case extract_json_from_text s of
                   None \<Rightarrow> Inr tool_calls
                 | Some extracted \<Rightarrow>
                     if py_truthy extracted then
                       bind_err (py_get extracted (ustr ''arguments'') extracted) (\<lambda>inner.
                         bind_err (py_get extracted (ustr ''parameters'') inner) (\<lambda>args.
                           Inr (JArr [JObj [(ustr ''function'',
                                  JObj [(ustr ''name'', JStr (ustr ''generate_oxid_ui'')),
                                        (ustr ''arguments'', args)])]])))
                     else Inr tool_calls)
            | _ \<Rightarrow> Inl AttributeError))
      else Inr tool_calls)"

text \<open>
  Lines 219 to 260 for the reply \<open>response\<close> that \<^verbatim>\<open>ollama.chat\<close> returned: the history
  afterwards, or the exception that ends the program.
\<close>

definition respond ::
  "('p \<Rightarrow> json \<Rightarrow> json \<Rightarrow> py_error + json \<times> 'p) \<Rightarrow> 'p \<Rightarrow> json list \<Rightarrow> json
     \<Rightarrow> py_error + json list \<times> 'p" where
  "respond generate p messages response =
     bind_err (py_get response (ustr ''message'') (JObj [])) (\<lambda>m.
       bind_err (py_get m (ustr ''tool_calls'') JNull) (\<lambda>tool_calls0.
         bind_err (synthesize_tool_calls response tool_calls0) (\<lambda>tool_calls.
           if py_truthy tool_calls then
             bind_err (py_iter tool_calls) (\<lambda>tools.
               run_tool_calls generate response p messages tools)
           else
             bind_err (getitem_str response (ustr ''message'')) (\<lambda>message.
               bind_err (getitem_str message (ustr ''content'')) (\<lambda>content.
                 Inr (messages @ [message], p))))))"

text \<open>
  One pass through the body of the loop of \<^verbatim>\<open>main\<close> after the exit test (lines 214 to 260):
  the history is cut back to its first message when it holds more than six, the user's
  message is appended, and the reply is handled.
\<close>

definition turn ::
  "('p \<Rightarrow> json \<Rightarrow> json \<Rightarrow> py_error + json \<times> 'p) \<Rightarrow> 'p \<Rightarrow> json list \<Rightarrow> ustring \<Rightarrow> json
     \<Rightarrow> py_error + json list \<times> 'p" where
  "turn generate p messages0 user_input response =
     (let messages1 = (if length messages0 > 6 then [messages0 ! 0] else messages0);
          messages = messages1 @ [user_message user_input]
      in respond generate p messages response)"

text \<open>
  The loop of \<^verbatim>\<open>main\<close> over successive turns, each with the user's input and the model's
  reply, and the same loop without line 214: the full transcript.
\<close>

fun run_turns ::
  "('p \<Rightarrow> json \<Rightarrow> json \<Rightarrow> py_error + json \<times> 'p) \<Rightarrow> 'p \<Rightarrow> json list \<Rightarrow> (ustring \<times> json) list
     \<Rightarrow> py_error + json list \<times> 'p" where
  "run_turns generate p messages [] = Inr (messages, p)"
| "run_turns generate p messages ((user_input, response) # rest) =
     bind_err (turn generate p messages user_input response) (\<lambda>(messages', p').
       run_turns generate p' messages' rest)"

fun full_transcript ::
  "('p \<Rightarrow> json \<Rightarrow> json \<Rightarrow> py_error + json \<times> 'p) \<Rightarrow> 'p \<Rightarrow> json list \<Rightarrow> (ustring \<times> json) list
     \<Rightarrow> py_error + json list \<times> 'p" where
  "full_transcript generate p messages [] = Inr (messages, p)"
| "full_transcript generate p messages ((user_input, response) # rest) =
     bind_err (respond generate p (messages @ [user_message user_input]) response)
       (\<lambda>(messages', p'). full_transcript generate p' messages' rest)"

section \<open>Facts about the model\<close>

subsection \<open>The library function \<^verbatim>\<open>json.loads\<close>\<close>

lemma scan_once_shorter: "scan_once s = Some (v, r) \<Longrightarrow> length r < length s"
  using scan_consumes(1) [of s v r] jsize_pos [of v] by simp

lemma parse_array_unguarded:
  "parse_array vals s =
     (case scan_once s of
        None \<Rightarrow> None
      | Some (v, r) \<Rightarrow>
          (case skip_ws r of
             [] \<Rightarrow> None
           | d # r' \<Rightarrow>
               if d = 0x5D then Some (JArr (vals @ [v]), r')
               else if d = 0x2C then parse_array (vals @ [v]) (skip_ws r')
               else None))"
proof -
  have "length r' < length s" if "scan_once s = Some (v, r)" "skip_ws r = d # r'" for v r d r'
    using scan_once_shorter [OF that(1)] length_skip_ws [of r] that(2) by simp
  then show ?thesis
    by (subst parse_array.simps) (auto split: option.splits list.splits)
qed

lemma parse_object_unguarded:
  "parse_object pairs (q # r) =
     (if q \<noteq> 0x22 then None
      else
        (case scanstring [] r of
           None \<Rightarrow> None
         | Some (k, r1) \<Rightarrow>
             (case skip_ws r1 of
                [] \<Rightarrow> None
              | col # r2 \<Rightarrow>
                  if col \<noteq> 0x3A then None
                  else
                    (case scan_once (skip_ws r2) of
                       None \<Rightarrow> None
                     | Some (v, r3) \<Rightarrow>
                         (case skip_ws r3 of
                            [] \<Rightarrow> None
                          | d # r4 \<Rightarrow>
                              if d = 0x7D then Some (JObj (AList.update k v pairs), r4)
                              else if d = 0x2C
                              then parse_object (AList.update k v pairs) (skip_ws r4)
                              else None)))))"
proof -
  have "length r4 < length r"
    if "scanstring [] r = Some (k, r1)" "skip_ws r1 = col # r2"
       "scan_once (skip_ws r2) = Some (v, r3)" "skip_ws r3 = d # r4" for k r1 col r2 v r3 d r4
    using scanstring_length [OF that(1)] length_skip_ws [of r1] that(2) length_skip_ws [of r2]
      scan_once_shorter [OF that(3)] length_skip_ws [of r3] that(4) by simp
  then show ?thesis
    by (subst parse_object.simps) (auto split: option.splits list.splits)
qed

text \<open>A text that opens with a brace decodes to a mapping, one that opens with a bracket to a sequence.\<close>

lemma parse_containers:
  "scan_once s = Some (v, r) \<Longrightarrow> True"
  "parse_array vals s0 = Some (v1, r1) \<Longrightarrow> is_list v1"
  "parse_object pairs s2 = Some (v2, r2) \<Longrightarrow> is_dict v2"
proof (induction s and vals s0 and pairs s2 arbitrary: v r and v1 r1 and v2 r2
       rule: scan_once_parse_array_parse_object.induct)
  case (3 vals s)
  from "3.prems" obtain v r where sc: "scan_once s = Some (v, r)"
    by (auto simp: parse_array.simps [of vals s] split: option.splits)
  from "3.prems" sc obtain d r' where sk: "skip_ws r = d # r'"
    by (auto simp: parse_array.simps [of vals s] split: list.splits)
  show ?case
  proof (cases "d = 0x5D")
    case True
    with "3.prems" sc sk show ?thesis by (auto simp: parse_array.simps [of vals s])
  next
    case False
    with "3.prems" sc sk have g: "d = 0x2C \<and> length r' < length s"
      and rec: "parse_array (vals @ [v]) (skip_ws r') = Some (v1, r1)"
      by (auto simp: parse_array.simps [of vals s] split: if_splits)
    from "3.IH"(2) [OF sc refl sk False g rec] show ?thesis .
  qed
next
  case (5 pairs q r)
  from "5.prems" have q: "q = 0x22" by (auto split: if_splits)
  from "5.prems" q obtain k ra where ss: "scanstring [] r = Some (k, ra)"
    by (auto split: option.splits)
  from "5.prems" q ss obtain col rb where sk1: "skip_ws ra = col # rb"
    by (auto split: list.splits)
  from "5.prems" q ss sk1 have col: "col = 0x3A" by (auto split: if_splits)
  from "5.prems" q ss sk1 col obtain v rc where sc: "scan_once (skip_ws rb) = Some (v, rc)"
    by (auto split: option.splits)
  from "5.prems" q ss sk1 col sc obtain d rd where sk2: "skip_ws rc = d # rd"
    by (auto split: list.splits)
  have q': "\<not> q \<noteq> 0x22" and col': "\<not> col \<noteq> 0x3A" using q col by simp_all
  show ?case
  proof (cases "d = 0x7D")
    case True
    with "5.prems" q ss sk1 col sc sk2 show ?thesis by auto
  next
    case False
    with "5.prems" q ss sk1 col sc sk2 have g: "d = 0x2C \<and> length rd < length r"
      and rec: "parse_object (AList.update k v pairs) (skip_ws rd) = Some (v2, r2)"
      by (auto split: if_splits)
    from "5.IH"(2) [OF q' ss refl sk1 col' sc refl sk2 False g rec] show ?thesis .
  qed
qed simp_all

lemma skip_ws_id: "\<not> json_ws c \<Longrightarrow> skip_ws (c # s) = c # s"
  by (simp add: skip_ws_def)

lemma json_loads_object:
  assumes "startswith s (ustr ''{'')" "json_loads s = Some v"
  shows "is_dict v"
proof -
  from assms(1) obtain r where s: "s = 0x7B # r"
    by (cases s) (auto simp: startswith_def ustr_def)
  from assms(2) obtain rest where sc: "scan_once (0x7B # r) = Some (v, rest)"
    unfolding s json_loads_def
    by (auto simp: skip_ws_id json_ws_def simp del: scan_once.simps split: option.splits if_splits)
  show ?thesis
  proof (cases "skip_ws r")
    case Nil
    with sc show ?thesis by simp
  next
    case (Cons d r')
    with sc parse_containers(3) [of "[]" "d # r'" v rest] show ?thesis
      by (auto split: if_splits)
  qed
qed

lemma json_loads_array:
  assumes "startswith s (ustr ''['')" "json_loads s = Some v"
  shows "is_list v"
proof -
  from assms(1) obtain r where s: "s = 0x5B # r"
    by (cases s) (auto simp: startswith_def ustr_def)
  from assms(2) obtain rest where sc: "scan_once (0x5B # r) = Some (v, rest)"
    unfolding s json_loads_def
    by (auto simp: skip_ws_id json_ws_def simp del: scan_once.simps split: option.splits if_splits)
  show ?thesis
  proof (cases "skip_ws r")
    case Nil
    with sc show ?thesis by simp
  next
    case (Cons d r')
    with sc parse_containers(2) [of "[]" "d # r'" v rest] show ?thesis
      by (auto split: if_splits)
  qed
qed

subsection \<open>The schema sanitizer\<close>

lemma foldl_clean:
  "foldl (\<lambda>cleaned item. let sanitized = f item
                          in if is_dict sanitized then cleaned @ [sanitized] else cleaned) acc xs
   = acc @ filter is_dict (map f xs)"
  by (induction xs arbitrary: acc) (simp_all add: Let_def)

lemma sanitize_list:
  "recursive_sanitize (JArr xs) = JArr (filter is_dict (map recursive_sanitize xs))"
  by (simp add: foldl_clean)

lemma sanitize_dict: "recursive_sanitize (JObj d) = JObj (fixups (sanitize_values d))"
  by (simp add: sanitize_values_def)

lemma update_fresh: "k \<notin> fst ` set al \<Longrightarrow> AList.update k v al = al @ [(k, v)]"
  by (induction al) auto

lemma set_update_subset: "set (AList.update k v al) \<subseteq> insert (k, v) (set al)"
  by (induction al) auto

lemma foldl_update_fixed:
  "distinct (map fst (acc @ d)) \<Longrightarrow> (\<And>k v. (k, v) \<in> set d \<Longrightarrow> f v = v) \<Longrightarrow>
   foldl (\<lambda>nd (k, v). AList.update k (f v) nd) acc d = acc @ d"
proof (induction d arbitrary: acc)
  case Nil
  then show ?case by simp
next
  case (Cons kv d)
  obtain k v where kv: "kv = (k, v)" by (cases kv)
  from Cons.prems(1) kv have fresh: "k \<notin> fst ` set acc" by auto
  from Cons.prems(2) [of k v] kv have fv: "f v = v" by simp
  from Cons.prems(1) kv have "distinct (map fst ((acc @ [(k, v)]) @ d))" by simp
  moreover have "f v' = v'" if "(k', v') \<in> set d" for k' v'
    using Cons.prems(2) [of k' v'] that by simp
  ultimately have
    "foldl (\<lambda>nd (k, v). AList.update k (f v) nd) (acc @ [(k, v)]) d = (acc @ [(k, v)]) @ d"
    by (rule Cons.IH)
  with kv fresh fv show ?case by (simp add: update_fresh)
qed

lemma foldl_update_distinct:
  "distinct (map fst acc) \<Longrightarrow>
   distinct (map fst (foldl (\<lambda>nd (k, v). AList.update k (f v) nd) acc d))"
proof (induction d arbitrary: acc)
  case Nil
  then show ?case by simp
next
  case (Cons kv d)
  obtain k v where kv: "kv = (k, v)" by (cases kv)
  from Cons.IH [OF distinct_update [OF Cons.prems, of k "f v"]] kv show ?case by simp
qed

lemma foldl_update_set:
  "set (foldl (\<lambda>nd (k, v). AList.update k (f v) nd) acc d)
     \<subseteq> set acc \<union> (\<lambda>(k, v). (k, f v)) ` set d"
proof (induction d arbitrary: acc)
  case Nil
  then show ?case by simp
next
  case (Cons kv d)
  obtain k v where kv: "kv = (k, v)" by (cases kv)
  have "set (AList.update k (f v) acc) \<subseteq> insert (k, f v) (set acc)"
    by (rule set_update_subset)
  with Cons.IH [of "AList.update k (f v) acc"] kv show ?case by auto
qed

lemma foldl_update_keys:
  "fst ` set (foldl (\<lambda>nd (k, v). AList.update k (f v) nd) acc d) = fst ` set acc \<union> fst ` set d"
proof (induction d arbitrary: acc)
  case Nil
  then show ?case by simp
next
  case (Cons kv d)
  obtain k v where kv: "kv = (k, v)" by (cases kv)
  from Cons.IH [of "AList.update k (f v) acc"] kv show ?case
    by (simp add: dom_update Un_assoc)
qed

lemma sanitize_values_distinct: "distinct (map fst (sanitize_values d))"
  unfolding sanitize_values_def by (rule foldl_update_distinct) simp

lemma sanitize_values_keys: "fst ` set (sanitize_values d) = fst ` set d"
  unfolding sanitize_values_def by (simp add: foldl_update_keys)

lemma sanitize_values_set:
  "(k, w) \<in> set (sanitize_values d) \<Longrightarrow> \<exists>v. (k, v) \<in> set d \<and> w = recursive_sanitize v"
  using foldl_update_set [of recursive_sanitize "[]" d] unfolding sanitize_values_def by auto

lemma has_key_iff: "has_key d k \<longleftrightarrow> k \<in> fst ` set d"
  by (simp add: has_key_def map_of_eq_None_iff)

lemma fix_type_name_cases:
  "fix_type_name d = d \<or> (ustr ''type_name'' \<notin> fst ` set d
       \<and> fix_type_name d = d @ [(ustr ''type_name'', JStr (ustr ''VStack''))])"
  by (auto simp: fix_type_name_def has_key_iff update_fresh)

lemma map_of_fix_children:
  "map_of (fix_children d) k =
     (if k = ustr ''children'' then
        (case map_of d k of None \<Rightarrow> None | Some c \<Rightarrow> if is_list c then Some c else Some (JArr []))
      else map_of d k)"
  by (simp add: fix_children_def update_conv' split: option.splits)

lemma map_of_fix_props:
  "map_of (fix_props d) k =
     (if k = ustr ''props'' then
        (case map_of d k of None \<Rightarrow> None | Some c \<Rightarrow> if is_dict c then Some c else Some (JObj []))
      else map_of d k)"
  by (simp add: fix_props_def update_conv' split: option.splits)

lemma map_of_fix_type_name:
  "map_of (fix_type_name d) k =
     (if k = ustr ''type_name'' \<and> map_of d k = None
         \<and> (map_of d (ustr ''children'') \<noteq> None \<or> map_of d (ustr ''props'') \<noteq> None)
      then Some (JStr (ustr ''VStack''))
      else map_of d k)"
  by (simp add: fix_type_name_def has_key_def update_conv')

lemma fix_children_distinct: "distinct (map fst d) \<Longrightarrow> distinct (map fst (fix_children d))"
  by (simp add: fix_children_def distinct_update split: option.splits)

lemma fix_props_distinct: "distinct (map fst d) \<Longrightarrow> distinct (map fst (fix_props d))"
  by (simp add: fix_props_def distinct_update split: option.splits)

lemma fix_type_name_distinct: "distinct (map fst d) \<Longrightarrow> distinct (map fst (fix_type_name d))"
  by (simp add: fix_type_name_def distinct_update)

lemma fixups_distinct: "distinct (map fst d) \<Longrightarrow> distinct (map fst (fixups d))"
  by (simp add: fixups_def fix_props_distinct fix_children_distinct fix_type_name_distinct)

lemma fix_children_set:
  "set (fix_children d) \<subseteq> insert (ustr ''children'', JArr []) (set d)"
  using set_update_subset [of "ustr ''children''" "JArr []" d]
  by (auto simp: fix_children_def split: option.splits)

lemma fix_props_set:
  "set (fix_props d) \<subseteq> insert (ustr ''props'', JObj []) (set d)"
  using set_update_subset [of "ustr ''props''" "JObj []" d]
  by (auto simp: fix_props_def split: option.splits)

lemma fix_type_name_set:
  "set (fix_type_name d) \<subseteq> insert (ustr ''type_name'', JStr (ustr ''VStack'')) (set d)"
  using set_update_subset [of "ustr ''type_name''" "JStr (ustr ''VStack'')" d]
  by (auto simp: fix_type_name_def)

lemma fixups_set:
  "set (fixups d) \<subseteq> set d \<union> {(ustr ''type_name'', JStr (ustr ''VStack'')),
       (ustr ''children'', JArr []), (ustr ''props'', JObj [])}"
  unfolding fixups_def
  using fix_props_set [of "fix_children (fix_type_name d)"]
    fix_children_set [of "fix_type_name d"] fix_type_name_set [of d]
  by blast

lemma repaired_fixups: "repaired (fixups d)"
  by (simp add: repaired_def fixups_def has_key_def map_of_fix_props map_of_fix_children
      map_of_fix_type_name split: option.splits)

lemma fixups_repaired: "repaired d \<Longrightarrow> fixups d = d"
  by (auto simp: repaired_def fixups_def fix_props_def fix_children_def fix_type_name_def
      split: option.splits if_splits)

lemma fixups_idem: "fixups (fixups d) = fixups d"
  by (rule fixups_repaired) (rule repaired_fixups)

lemma dropWhile_id: "xs = [] \<or> \<not> P (hd xs) \<Longrightarrow> dropWhile P xs = xs"
  by (cases xs) auto

lemma str_strip_idem: "str_strip (str_strip s) = str_strip s"
proof -
  define a where "a = dropWhile is_space s"
  define b where "b = dropWhile is_space (rev a)"
  have b: "b = [] \<or> \<not> is_space (hd b)"
    unfolding b_def using hd_dropWhile [of is_space "rev a"] by blast
  have a: "a = [] \<or> \<not> is_space (hd a)"
    unfolding a_def using hd_dropWhile [of is_space s] by blast
  have "rev b = take (length b) a"
  proof -
    have "b = drop (length (takeWhile is_space (rev a))) (rev a)"
      unfolding b_def by (rule dropWhile_eq_drop)
    then show ?thesis by (simp add: rev_drop)  
  qed
  then have hd: "rev b = [] \<or> \<not> is_space (hd (rev b))"
    using a by (cases b; cases a) auto
  have 1: "dropWhile is_space (rev b) = rev b" using hd by (rule dropWhile_id)
  have 2: "dropWhile is_space (rev (rev b)) = b" using b by (simp add: dropWhile_id)
  show ?thesis
    unfolding str_strip_def a_def [symmetric] b_def [symmetric] 1 2 ..
qed

lemma sanitize_VStack: "recursive_sanitize (JStr (ustr ''VStack'')) = JStr (ustr ''VStack'')"
  by (simp add: Let_def str_strip_def is_space_def bracketed_def startswith_def ustr_def)

lemma sanitize_empty_dict: "recursive_sanitize (JObj []) = JObj []"
  by (simp add: fixups_def fix_props_def fix_children_def fix_type_name_def has_key_def)

lemma map_of_fixups_children:
  "map_of (fixups d) (ustr ''children'') =
     (case map_of d (ustr ''children'') of
        None \<Rightarrow> None
      | Some c \<Rightarrow> if is_list c then Some c else Some (JArr []))"
  by (simp add: fixups_def map_of_fix_props map_of_fix_children map_of_fix_type_name)

lemma map_of_fixups_props:
  "map_of (fixups d) (ustr ''props'') =
     (case map_of d (ustr ''props'') of
        None \<Rightarrow> None
      | Some c \<Rightarrow> if is_dict c then Some c else Some (JObj []))"
  by (simp add: fixups_def map_of_fix_props map_of_fix_children map_of_fix_type_name)

lemma sanitize_sane: "sane_output (recursive_sanitize x)"
proof (induction x rule: recursive_sanitize.induct)
  case (1 data0)
  show ?case
  proof (cases "bracketed (str_strip data0) \<and> json_loads (str_strip data0) \<noteq> None")
    case True
    then obtain parsed where p: "json_loads (str_strip data0) = Some parsed" by auto
    with True "1.IH" [OF refl _ p] show ?thesis by simp
  next
    case False
    then have "recursive_sanitize (JStr data0) = JStr (str_strip data0)"
      by (auto simp: Let_def)
    then show ?thesis by (simp add: sane_output_def)
  qed
next
  case (2 data)
  have "component_node (recursive_sanitize x)"
    if "x \<in> set data" "is_dict (recursive_sanitize x)" for x
    using "2.IH" [OF that(1)] that(2)
    by (cases "recursive_sanitize x") (simp_all add: sane_output_def)
  then show ?case
    by (auto simp add: sanitize_list sane_output_def list_all_iff
        simp del: recursive_sanitize.simps)
next
  case (3 data)
  let ?R = "sanitize_values data"
  have ch: "list_all component_node xs" if "map_of ?R (ustr ''children'') = Some (JArr xs)" for xs
  proof -
    from that have "(ustr ''children'', JArr xs) \<in> set ?R" by (rule map_of_SomeD)
    then obtain v where v: "(ustr ''children'', v) \<in> set data" "JArr xs = recursive_sanitize v"
      using sanitize_values_set by blast
    from "3.IH" [OF v(1) refl] v(2) [symmetric] show ?thesis by (simp add: sane_output_def)
  qed
  have "component_node (JObj (fixups ?R))"
    using ch
    by (auto simp: map_of_fixups_children map_of_fixups_props split: option.splits json.splits)
  then show ?case
    by (simp add: sanitize_dict sane_output_def del: recursive_sanitize.simps component_node.simps)
qed (simp_all add: sane_output_def)

lemma sanitize_values_has_key: "has_key (sanitize_values d) k = has_key d k"
  by (simp add: has_key_iff sanitize_values_keys)

lemma map_of_fixups_type_name:
  "map_of (fixups d) (ustr ''type_name'') =
     (if map_of d (ustr ''type_name'') = None
         \<and> (map_of d (ustr ''children'') \<noteq> None \<or> map_of d (ustr ''props'') \<noteq> None)
      then Some (JStr (ustr ''VStack''))
      else map_of d (ustr ''type_name''))"
  by (simp add: fixups_def map_of_fix_props map_of_fix_children map_of_fix_type_name)

lemma update_present_keys: "map_of al k = Some x \<Longrightarrow> map fst (AList.update k v al) = map fst al"
proof -
  assume "map_of al k = Some x"
  then have "(k, x) \<in> set al" by (rule map_of_SomeD)
  then have "k \<in> fst ` set al" by force
  then show ?thesis by (simp add: update_keys)
qed

lemma fix_children_keys: "map fst (fix_children d) = map fst d"
  by (simp add: fix_children_def update_present_keys split: option.splits)

lemma fix_props_keys: "map fst (fix_props d) = map fst d"
  by (simp add: fix_props_def update_present_keys split: option.splits)

subsection \<open>The response extractor\<close>

lemma str_find_char:
  "str_find s [c] = (if c \<in> set s then Some (length (takeWhile (\<lambda>x. x \<noteq> c) s)) else None)"
  by (induction s) (auto simp: startswith_def)

lemma length_takeWhile_lt: "x \<in> set xs \<Longrightarrow> \<not> P x \<Longrightarrow> length (takeWhile P xs) < length xs"
  by (induction xs) auto

lemma str_rfind_char:
  "str_rfind s [c] =
     (if c \<in> set s then Some (length s - Suc (length (takeWhile (\<lambda>x. x \<noteq> c) (rev s)))) else None)"
proof (induction s)
  case Nil
  then show ?case by simp
next
  case (Cons a s)
  show ?case
  proof (cases "c \<in> set s")
    case True
    then have lt: "length (takeWhile (\<lambda>x. x \<noteq> c) (rev s)) < length s"
      using length_takeWhile_lt [of c "rev s" "\<lambda>x. x \<noteq> c"] by simp
    from True have "takeWhile (\<lambda>x. x \<noteq> c) (rev s @ [a]) = takeWhile (\<lambda>x. x \<noteq> c) (rev s)"
      by (intro takeWhile_append1 [of c]) simp_all
    with True Cons lt show ?thesis by (simp add: Suc_diff_Suc)
  next
    case False
    then have "takeWhile (\<lambda>x. x \<noteq> c) (rev s @ [a]) = rev s @ takeWhile (\<lambda>x. x \<noteq> c) [a]"
      by (intro takeWhile_append2) auto
    with False Cons show ?thesis by (auto simp: startswith_def)
  qed
qed

lemma takeWhile_take:
  "length (takeWhile P xs) < n \<Longrightarrow> takeWhile P (take n xs) = takeWhile P xs"
  by (induction xs arbitrary: n) (auto simp: take_Cons split: nat.splits)

lemma slice_brace_span:
  assumes "0x7B \<in> set t" "0x7D \<in> set t"
  shows "slice t (length (takeWhile (\<lambda>x. x \<noteq> 0x7B) t))
              (length t - Suc (length (takeWhile (\<lambda>x. x \<noteq> 0x7D) (rev t))) + 1)
         = brace_span t"
proof -
  define k where "k = length (takeWhile (\<lambda>x. x \<noteq> (0x7D::nat)) (rev t))"
  define i where "i = length (takeWhile (\<lambda>x. x \<noteq> (0x7B::nat)) t)"
  have k: "k < length t"
    unfolding k_def using length_takeWhile_lt [of "0x7D" "rev t" "\<lambda>x. x \<noteq> 0x7D"] assms(2) by simp
  define X where "X = take (length t - k) t"
  have X: "rev (dropWhile (\<lambda>c. c \<noteq> 0x7D) (rev t)) = X"
    unfolding X_def k_def by (simp add: dropWhile_eq_drop rev_drop)
  have e: "length t - Suc k + 1 = length t - k" using k by simp
  have "drop i X = dropWhile (\<lambda>c. c \<noteq> 0x7B) X"
  proof (cases "i < length t - k")
    case True
    have "takeWhile (\<lambda>x. x \<noteq> 0x7B) X = takeWhile (\<lambda>x. x \<noteq> 0x7B) t"
      unfolding X_def using True unfolding i_def by (simp add: takeWhile_take)
    then show ?thesis
      unfolding i_def by (simp add: dropWhile_eq_drop)
  next
    case False
    then have "length X \<le> i" by (simp add: X_def)
    have "\<forall>x \<in> set X. x \<noteq> 0x7B"
    proof
      fix x assume "x \<in> set X"
      then obtain j where j: "j < length X" "X ! j = x" by (auto simp: in_set_conv_nth)
      with False have "j < i" by (simp add: X_def)
      then have "takeWhile (\<lambda>x. x \<noteq> 0x7B) t ! j \<in> set (takeWhile (\<lambda>x. x \<noteq> 0x7B) t)"
        unfolding i_def by (rule nth_mem)
      then have "takeWhile (\<lambda>x. x \<noteq> 0x7B) t ! j \<noteq> 0x7B"
        by (rule set_takeWhileD [THEN conjunct2])
      moreover have "takeWhile (\<lambda>x. x \<noteq> 0x7B) t ! j = t ! j"
        using \<open>j < i\<close> unfolding i_def by (rule takeWhile_nth)
      moreover have "X ! j = t ! j" using j(1) by (simp add: X_def)
      ultimately show "x \<noteq> 0x7B" using j(2) by simp
    qed
    then have "dropWhile (\<lambda>c. c \<noteq> 0x7B) X = []"
      by (simp add: dropWhile_eq_Nil_conv)
    moreover from \<open>length X \<le> i\<close> have "drop i X = []" by simp
    ultimately show ?thesis by (simp only:)
  qed
  then show ?thesis
    unfolding slice_def brace_span_def X k_def [symmetric] i_def [symmetric] e X_def .
qed

lemma extract_span:
  "extract_json_from_text text =
     (let t = narrow text
      in if 0x7B \<in> set t \<and> 0x7D \<in> set t then json_loads (brace_span t) else None)"
proof -
  have o: "ustr ''{'' = [0x7B]" and c: "ustr ''}'' = [0x7D]" by (simp_all add: ustr_def)
  show ?thesis
    unfolding extract_json_from_text_def Let_def o c str_find_char str_rfind_char
    using slice_brace_span [of "narrow text"] by simp
qed

lemma json_loads_Nil: "json_loads [] = None"
  by (simp add: json_loads_def skip_ws_def)

lemma brace_span_hd: "brace_span t \<noteq> [] \<Longrightarrow> startswith (brace_span t) (ustr ''{'')"
proof -
  assume ne: "brace_span t \<noteq> []"
  then have "\<not> hd (brace_span t) \<noteq> 0x7B"
    unfolding brace_span_def by (rule hd_dropWhile)
  then have "hd (brace_span t) = 0x7B" by simp
  with ne show ?thesis by (cases "brace_span t") (simp_all add: startswith_def ustr_def)
qed

lemma extract_is_dict: "extract_json_from_text text = Some v \<Longrightarrow> is_dict v"
proof -
  assume a: "extract_json_from_text text = Some v"
  then have l: "json_loads (brace_span (narrow text)) = Some v"
    unfolding extract_span Let_def by (simp split: if_splits)
  then have "brace_span (narrow text) \<noteq> []" using json_loads_Nil by auto
  from json_loads_object [OF brace_span_hd [OF this] l] show ?thesis .
qed

lemma split_from_find:
  "sep \<noteq> [] \<Longrightarrow>
   split_from sep cur s =
     (case str_find s sep of
        None \<Rightarrow> [cur @ s]
      | Some i \<Rightarrow> (cur @ take i s) # split_from sep [] (drop (i + length sep) s))"
proof (induction s arbitrary: cur)
  case Nil
  then show ?case by simp
next
  case (Cons c s)
  show ?case
  proof (cases "startswith (c # s) sep")
    case True
    with Cons.prems show ?thesis by (cases sep) simp_all
  next
    case False
    with Cons.prems Cons.IH [OF Cons.prems, of "cur @ [c]"] show ?thesis
      by (simp split: option.splits)
  qed
qed

lemma split_first: "sep \<noteq> [] \<Longrightarrow> str_split s sep ! 0 = before_first sep s"
  by (simp add: str_split_def before_first_def split_from_find [of sep "[]" s] split: option.splits)

lemma split_second:
  "sep \<noteq> [] \<Longrightarrow> contains s sep \<Longrightarrow> str_split s sep ! 1 = before_first sep (after_first sep s)"
  using split_first [of sep "after_first sep s"]
  by (auto simp add: str_split_def after_first_def contains_def split_from_find [of sep "[]" s]
      split: option.splits)

lemma narrow_fenced:
  "narrow text =
     (let t = str_strip text
      in if contains t (ustr ''```json'')
         then str_strip (before_first (ustr ''```'')
                (before_first (ustr ''```json'') (after_first (ustr ''```json'') t)))
         else t)"
proof (cases "contains (str_strip text) (ustr ''```json'')")
  case True
  have "str_split (str_split (str_strip text) (ustr ''```json'') ! 1) (ustr ''```'') ! 0
        = before_first (ustr ''```'')
            (before_first (ustr ''```json'') (after_first (ustr ''```json'') (str_strip text)))"
    using split_second [OF _ True] split_first [of "ustr ''```''"] by simp
  with True show ?thesis by (simp only: narrow_def Let_def if_True)
next
  case False
  then show ?thesis by (simp only: narrow_def Let_def if_False)
qed

lemma sublist_before_first: "sublist (before_first sep s) s"
  by (simp add: before_first_def split: option.splits)

lemma sublist_after_first: "sublist (after_first sep s) s"
  by (simp add: after_first_def split: option.splits)

lemma sublist_str_strip: "sublist (str_strip s) s"
proof -
  have "sublist (rev (dropWhile is_space (rev (dropWhile is_space s)))) (dropWhile is_space s)"
    by (simp add: sublist_rev_left)
  also have "sublist (dropWhile is_space s) s" by simp
  finally show ?thesis by (simp add: str_strip_def)
qed

lemma sublist_narrow: "sublist (narrow text) text"
proof (cases "contains (str_strip text) (ustr ''```json'')")
  case False
  then show ?thesis by (simp add: narrow_fenced sublist_str_strip)
next
  case True
  let ?F = "ustr ''```json''" and ?T = "ustr ''```''"
  let ?t = "str_strip text"
  have "sublist (str_strip (before_first ?T (before_first ?F (after_first ?F ?t))))
          (before_first ?T (before_first ?F (after_first ?F ?t)))"
    by (rule sublist_str_strip)
  also have "sublist \<dots> (before_first ?F (after_first ?F ?t))" by (rule sublist_before_first)
  also have "sublist \<dots> (after_first ?F ?t)" by (rule sublist_before_first)
  also have "sublist \<dots> ?t" by (rule sublist_after_first)
  also have "sublist \<dots> text" by (rule sublist_str_strip)
  finally show ?thesis using True by (simp add: narrow_fenced)
qed

lemma set_dropWhile_append: "set (dropWhile P ys) \<subseteq> set (dropWhile P (xs @ ys))"
  by (induction xs) (auto dest: set_dropWhileD)

lemma dropWhile_append_nonempty:
  "dropWhile P xs \<noteq> [] \<Longrightarrow> dropWhile P (xs @ ys) = dropWhile P xs @ ys"
  by (induction xs) auto

lemma no_pair_sublist:
  assumes "sublist n t" "c \<notin> set (dropWhile P t)"
  shows "c \<notin> set (dropWhile P n)"
proof
  assume c: "c \<in> set (dropWhile P n)"
  then have ne: "dropWhile P n \<noteq> []" by (cases "dropWhile P n") simp_all
  from assms(1) obtain ps ss where t: "t = ps @ n @ ss" by (auto simp: sublist_def)
  from c ne have "c \<in> set (dropWhile P (n @ ss))" by (simp add: dropWhile_append_nonempty)
  with set_dropWhile_append [of P "n @ ss" ps] have "c \<in> set (dropWhile P t)"
    unfolding t by blast
  with assms(2) show False by simp
qed

lemma brace_span_empty:
  assumes "0x7D \<notin> set (dropWhile (\<lambda>c. c \<noteq> 0x7B) n)"
  shows "brace_span n = []"
proof (rule ccontr)
  assume ne: "brace_span n \<noteq> []"
  define X where "X = rev (dropWhile (\<lambda>c. c \<noteq> 0x7D) (rev n))"
  have bs: "brace_span n = dropWhile (\<lambda>c. c \<noteq> 0x7B) X" by (simp add: brace_span_def X_def)
  with ne have Xne: "X \<noteq> []" by auto
  then have "dropWhile (\<lambda>c. c \<noteq> 0x7D) (rev n) \<noteq> []" by (simp add: X_def)
  then have "\<not> hd (dropWhile (\<lambda>c. c \<noteq> 0x7D) (rev n)) \<noteq> 0x7D" by (rule hd_dropWhile)
  then have lastX: "last X = 0x7D" using Xne by (simp add: X_def last_rev)
  have "last (dropWhile (\<lambda>c. c \<noteq> 0x7B) X) = last X"
    using ne bs by (metis last_appendR takeWhile_dropWhile_id)
  with lastX ne bs have in_span: "0x7D \<in> set (dropWhile (\<lambda>c. c \<noteq> 0x7B) X)"
    by (metis last_in_set)
  have "prefix X n"
  proof -
    have "suffix (dropWhile (\<lambda>c. c \<noteq> 0x7D) (rev n)) (rev n)" by (rule suffix_dropWhile)
    then show ?thesis by (simp add: X_def suffix_to_prefix)
  qed
  then obtain rest where n: "n = X @ rest" by (auto simp: prefix_def)
  from ne bs have "dropWhile (\<lambda>c. c \<noteq> 0x7B) n = dropWhile (\<lambda>c. c \<noteq> 0x7B) X @ rest"
    unfolding n by (simp add: dropWhile_append_nonempty)
  with in_span assms show False by simp
qed

lemma extract_no_pair:
  assumes "0x7D \<notin> set (dropWhile (\<lambda>c. c \<noteq> 0x7B) text)"
  shows "extract_json_from_text text = None"
proof -
  from no_pair_sublist [OF sublist_narrow assms] have "brace_span (narrow text) = []"
    by (rule brace_span_empty)
  then show ?thesis by (simp add: extract_span Let_def json_loads_Nil)
qed

subsection \<open>The tool catalog resolver\<close>

lemma handshake_steps:
  "handshake p =
     (if writes_left p = 0 then Inl BrokenPipeError
      else
        bind_err (reply_of (stdout_lines p)) (\<lambda>_.
          if writes_left p < 3 then Inl BrokenPipeError
          else
            bind_err (reply_of (tl (stdout_lines p))) (\<lambda>res.
              bind_err (py_get res (ustr ''result'') (JObj [])) (\<lambda>result.
                bind_err (py_get result (ustr ''tools'') (JArr [])) (\<lambda>tools.
                  bind_err (py_len tools) (\<lambda>_.
                    Inr (tools, \<lparr>sent = sent p @ [init_req, initialized_note, tools_req],
                                 stdout_lines = tl (tl (stdout_lines p)),
                                 writes_left = writes_left p - 3\<rparr>)))))))"
  by (auto simp: handshake_def recv_def send_def Let_def bind_err_def split: sum.splits)

lemma reply_of_error: "reply_of ls = Inl e \<Longrightarrow> e = JSONDecodeError"
  by (auto simp: reply_of_def Let_def split: if_splits option.splits)

lemma without_result_get:
  assumes "result_not_mapping res"
  shows "bind_err (py_get res (ustr ''result'') (JObj [])) (\<lambda>result.
           bind_err (py_get result (ustr ''tools'') (JArr [])) f) = Inl AttributeError"
proof (cases res)
  case (JObj d)
  with assms obtain result where "map_of d (ustr ''result'') = Some result" "\<not> is_dict result"
    by (auto simp: result_not_mapping_def split: option.splits)
  with JObj show ?thesis by (cases result) (simp_all add: bind_err_def)
qed (simp_all add: bind_err_def)

lemma without_tools_get:
  assumes "reply_without_tools res"
  shows "bind_err (py_get res (ustr ''result'') (JObj [])) (\<lambda>result.
           bind_err (py_get result (ustr ''tools'') (JArr [])) (\<lambda>tools.
             bind_err (py_len tools) (\<lambda>_. Inr (tools, q)))) = Inr (JArr [], q)"
proof -
  from assms obtain d where res: "res = JObj d" by (cases res) (simp_all add: reply_without_tools_def)
  show ?thesis
  proof (cases "map_of d (ustr ''result'')")
    case None
    with res show ?thesis by (simp add: bind_err_def)
  next
    case (Some result)
    with assms res obtain r where "result = JObj r" "map_of r (ustr ''tools'') = None"
      by (cases result) (simp_all add: reply_without_tools_def)
    with res Some show ?thesis by (simp add: bind_err_def)
  qed
qed

lemma startswith_append: "startswith s p \<Longrightarrow> startswith (s @ t) p"
proof -
  assume a: "startswith s p"
  then have "length (take (length p) s) = length p" by (simp add: startswith_def)
  then have "length p \<le> length s" by simp
  with a show ?thesis by (simp add: startswith_def)
qed

lemma str_find_append: "str_find s sub \<noteq> None \<Longrightarrow> str_find (s @ t) sub \<noteq> None"
proof (induction s)
  case Nil
  then show ?case by (cases t) (auto simp: startswith_def split: if_splits)
next
  case (Cons c s)
  show ?case
  proof (cases "startswith (c # s) sub")
    case True
    then have "startswith ((c # s) @ t) sub" by (rule startswith_append)
    then show ?thesis by simp
  next
    case False
    with Cons show ?thesis by (auto split: if_splits)
  qed
qed

lemma contains_append: "contains s sub \<Longrightarrow> contains (s @ t) sub"
  unfolding contains_def by (rule str_find_append)

lemma error_prefix_detected: "py_in (ustr ''Error:'') (JStr (error_prefix @ s)) = Inr True"
proof -
  have "contains error_prefix (ustr ''Error:'')"
    by (simp add: error_prefix_def contains_def startswith_def ustr_def)
  then show ?thesis by (simp add: contains_append)
qed

lemma call_tool_steps:
  "call_tool repr p name args =
     (if writes_left p = 0 then (Inl BrokenPipeError, p)
      else
        (bind_err (reply_of (stdout_lines p)) (tool_result repr),
         \<lparr>sent = sent p @ [JObj [(ustr ''jsonrpc'', JStr (ustr ''2.0'')), (ustr ''id'', JInt 3),
                                   (ustr ''method'', JStr (ustr ''tools/call'')),
                                   (ustr ''params'',
                                    JObj [(ustr ''name'', name), (ustr ''arguments'', args)])]],
          stdout_lines = tl (stdout_lines p),
          writes_left = writes_left p - 1\<rparr>))"
  by (simp add: call_tool_def recv_def send_def Let_def)

lemma resolve_catalog_cases:
  "resolve_catalog tools =
     (if py_truthy tools then
        (case schema_enum_of tools of
           Inl e \<Rightarrow> default_components
         | Inr schema_enum \<Rightarrow>
             if py_truthy schema_enum \<and> (is_list schema_enum \<or> is_dict schema_enum
                  \<or> (\<exists>s. schema_enum = JStr s))
             then schema_enum else default_components)
      else default_components)"
proof -
  have "(case py_len v of Inl e \<Rightarrow> a | Inr n \<Rightarrow> b)
        = (if is_list v \<or> is_dict v \<or> (\<exists>s. v = JStr s) then b else a)" for v and a b :: json
    by (cases v) simp_all
  then show ?thesis by (simp add: resolve_catalog_def split: sum.splits)
qed

subsection \<open>The conversation orchestrator\<close>

lemma run_tool_calls_append:
  "run_tool_calls g r p (ms @ ms') tools =
     (case run_tool_calls g r p ms' tools of
        Inl e \<Rightarrow> Inl e
      | Inr (out, p') \<Rightarrow> Inr (ms @ out, p'))"
proof (induction tools arbitrary: p ms')
  case Nil
  then show ?case by simp
next
  case (Cons tool rest)
  show ?case
    by (auto simp add: bind_err_def Cons.IH split: sum.splits prod.splits)
qed

lemma respond_append:
  "respond g p (ms @ ms') r =
     (case respond g p ms' r of
        Inl e \<Rightarrow> Inl e
      | Inr (out, p') \<Rightarrow> Inr (ms @ out, p'))"
  by (auto simp add: respond_def bind_err_def run_tool_calls_append split: sum.splits)

lemma turn_append:
  "turn g p ms i r =
     (case turn g p [] i r of
        Inl e \<Rightarrow> Inl e
      | Inr (out, p') \<Rightarrow> Inr ((if length ms > 6 then [ms ! 0] else ms) @ out, p'))"
proof -
  let ?h = "if length ms > 6 then [ms ! 0] else ms"
  have e: "turn g p [] i r = respond g p [user_message i] r" by (simp add: turn_def)
  have "turn g p ms i r = respond g p (?h @ [user_message i]) r"
    by (simp add: turn_def Let_def)
  also have "\<dots> = (case respond g p [user_message i] r of
        Inl e \<Rightarrow> Inl e
      | Inr (out, p') \<Rightarrow> Inr (?h @ out, p'))"
    by (rule respond_append)
  finally show ?thesis unfolding e .
qed

lemma turn_empty_head:
  "turn g p [] i r = Inr (out, p') \<Longrightarrow> \<exists>added. out = user_message i # added"
  using respond_append [of g p "[user_message i]" "[]" r]
  by (auto simp: turn_def Let_def split: sum.splits)

lemma turn_Inr:
  assumes "turn g p a i r = Inr (a', p1)"
  obtains out where "respond g p [user_message i] r = Inr (user_message i # out, p1)"
    and "a' = (if length a > 6 then [a ! 0] else a) @ user_message i # out"
    and "\<And>b. respond g p (b @ [user_message i]) r = Inr (b @ user_message i # out, p1)"
proof -
  have e: "turn g p [] i r = respond g p [user_message i] r" by (simp add: turn_def)
  from assms obtain o1 where o: "turn g p [] i r = Inr (o1, p1)"
    and a': "a' = (if length a > 6 then [a ! 0] else a) @ o1"
    unfolding turn_append [of g p a] by (auto split: sum.splits)
  from turn_empty_head [OF o] obtain out where o1: "o1 = user_message i # out" ..
  have "respond g p (b @ [user_message i]) r = Inr (b @ user_message i # out, p1)" for b
    using o unfolding e o1 respond_append [of g p b "[user_message i]" r] by simp
  with o a' o1 e that show ?thesis by simp
qed

lemma run_turns_vs_full:
  assumes "run_turns g p a ts = Inr (h, q)" and "a = b \<or> length a + 6 \<le> length b"
  shows "\<exists>full. full_transcript g p b ts = Inr (full, q)
           \<and> ((a = b \<and> h = full \<and> (ts = [] \<or> length a + length ts \<le> 7))
               \<or> length h + 6 \<le> length full)"
  using assms
proof (induction ts arbitrary: p a b)
  case Nil
  then show ?case by auto
next
  case (Cons t rest)
  obtain i r where t: "t = (i, r)" by (cases t)
  from Cons.prems(1) obtain a' p1 where tr: "turn g p a i r = Inr (a', p1)"
    and rest: "run_turns g p1 a' rest = Inr (h, q)"
    unfolding t by (auto simp: bind_err_def split: sum.splits)
  from tr obtain out where a': "a' = (if length a > 6 then [a ! 0] else a) @ user_message i # out"
    and resp: "respond g p (b @ [user_message i]) r = Inr (b @ user_message i # out, p1)"
    by (rule turn_Inr) blast
  let ?b' = "b @ user_message i # out"
  have step: "full_transcript g p b (t # rest) = full_transcript g p1 ?b' rest"
    unfolding t by (simp add: resp bind_err_def)
  show ?case
  proof (cases "a = b \<and> length a \<le> 6")
    case True
    then have "\<not> length a > 6" and "a = b" by auto
    with a' have eq: "a' = ?b'" by simp
    from Cons.IH [OF rest, of ?b'] eq obtain full where
      f: "full_transcript g p1 ?b' rest = Inr (full, q)"
      and d: "(h = full \<and> (rest = [] \<or> length a' + length rest \<le> 7)) \<or> length h + 6 \<le> length full"
      by auto
    from d True eq have "(a = b \<and> h = full \<and> length a + length (t # rest) \<le> 7)
               \<or> length h + 6 \<le> length full"
      by auto
    with f step show ?thesis by auto
  next
    case False
    with Cons.prems(2) a' have gap: "length a' + 6 \<le> length ?b'" by (auto split: if_splits)
    then have ne: "a' \<noteq> ?b'" by auto
    from Cons.IH [OF rest, of ?b'] gap obtain full where
      f: "full_transcript g p1 ?b' rest = Inr (full, q)"
      and d: "(a' = ?b' \<and> h = full \<and> (rest = [] \<or> length a' + length rest \<le> 7))
              \<or> length h + 6 \<le> length full"
      by blast
    from d ne have "length h + 6 \<le> length full" by blast
    with f step show ?thesis by auto
  qed
qed

lemma run_turns_hd:
  "run_turns g p a ts = Inr (h, q) \<Longrightarrow> a \<noteq> [] \<Longrightarrow> h \<noteq> [] \<and> hd h = hd a"
proof (induction ts arbitrary: p a)
  case Nil
  then show ?case by simp
next
  case (Cons t rest)
  obtain i r where t: "t = (i, r)" by (cases t)
  from Cons.prems(1) obtain a' p1 where tr: "turn g p a i r = Inr (a', p1)"
    and rest: "run_turns g p1 a' rest = Inr (h, q)"
    unfolding t by (auto simp: bind_err_def split: sum.splits)
  from tr obtain out where a': "a' = (if length a > 6 then [a ! 0] else a) @ user_message i # out"
    by (rule turn_Inr) blast
  with Cons.prems(2) have "a' \<noteq> []" "hd a' = hd a"
    by (cases a; simp)+
  with Cons.IH [OF rest] show ?case by simp
qed

section \<open>Evaluation on concrete inputs\<close>

lemmas json_eval = json_loads_def skip_ws_def json_ws_def scan_atom_def match_number_def
  match_unsigned_def is_digit_def fraction_part_def exponent_part_def digits_value_def
  backslash_def hex_digit_def

lemmas str_eval = ustr_def str_strip_def is_space_def bracketed_def startswith_def endswith_def
  Let_def

lemmas sanitize_eval = fixups_def fix_type_name_def fix_children_def fix_props_def has_key_def

lemmas extract_eval = narrow_def extract_json_from_text_def contains_def str_split_def slice_def

lemmas client_eval = handshake_def recv_def reply_of_def send_def bind_err_def call_tool_def
  tool_result_def nested_text_def init_req_def initialized_note_def tools_req_def
  error_prefix_def contains_def

section \<open>The claims\<close>

text \<open>
  C1. The sanitizer is idempotent: for every JSON value \<open>x\<close>, sanitizing the sanitized value
  gives the sanitized value again.
\<close>

theorem sanitize_idempotent: "recursive_sanitize (recursive_sanitize x) = recursive_sanitize x"
proof (induction x rule: recursive_sanitize.induct)
  case (1 data0)
  show ?case
  proof (cases "bracketed (str_strip data0) \<and> json_loads (str_strip data0) \<noteq> None")
    case True
    then obtain parsed where p: "json_loads (str_strip data0) = Some parsed" by auto
    with True have "recursive_sanitize (JStr data0) = recursive_sanitize parsed" by simp
    with "1.IH" [OF refl _ p] True show ?thesis by simp
  next
    case False
    then have "recursive_sanitize (JStr data0) = JStr (str_strip data0)"
      by (auto simp: Let_def)
    moreover from False have "recursive_sanitize (JStr (str_strip data0)) = JStr (str_strip data0)"
      by (auto simp: Let_def str_strip_idem)
    ultimately show ?thesis by simp
  qed
next
  case (2 data)
  have "map recursive_sanitize (filter is_dict (map recursive_sanitize data))
        = filter is_dict (map recursive_sanitize data)"
    using "2.IH" by (induction data) auto
  then show ?case by (simp add: sanitize_list del: recursive_sanitize.simps)
next
  case (3 data)
  let ?F = "fixups (sanitize_values data)"
  have d: "distinct (map fst ([] @ ?F))"
    using fixups_distinct [OF sanitize_values_distinct] by simp
  have fixed: "recursive_sanitize w = w" if "(k, w) \<in> set ?F" for k w
  proof -
    from that fixups_set [of "sanitize_values data"]
    consider "(k, w) \<in> set (sanitize_values data)" | "w = JStr (ustr ''VStack'')"
      | "w = JArr []" | "w = JObj []" by auto
    then show ?thesis
    proof cases
      case 1
      then obtain v where "(k, v) \<in> set data" "w = recursive_sanitize v"
        using sanitize_values_set by blast
      with "3.IH" [of "(k, v)" k v] show ?thesis by simp
    next
      case 2
      then show ?thesis by (simp only: sanitize_VStack)
    next
      case 3
      then show ?thesis by simp
    next
      case 4
      then show ?thesis by (simp only: sanitize_empty_dict)
    qed
  qed
  have "sanitize_values ?F = ?F"
    unfolding sanitize_values_def [of ?F]
    using foldl_update_fixed [of "[]" ?F recursive_sanitize, OF d fixed] by simp
  then show ?case
    by (simp add: sanitize_dict fixups_idem del: recursive_sanitize.simps)
qed simp_all

theorem sanitize_idempotent_witness:
  "recursive_sanitize (recursive_sanitize (JObj [(ustr ''children'', JInt 3)]))
     = recursive_sanitize (JObj [(ustr ''children'', JInt 3)])"
  by (rule sanitize_idempotent)

text \<open>
  C2. Structural guarantee: for every mapping \<open>x\<close>, the sanitized \<open>x\<close> is a component node:
  its \<^verbatim>\<open>children\<close>, when present, is a sequence of mappings each of which satisfies the same
  guarantee, and its \<^verbatim>\<open>props\<close>, when present, is a mapping. The elements of a sequence
  that do not sanitize to a mapping are dropped.
\<close>

theorem sanitize_structure:
  "component_node (recursive_sanitize (JObj d))
   \<and> recursive_sanitize (JArr xs) = JArr (filter is_dict (map recursive_sanitize xs))"
proof
  have "sane_output (recursive_sanitize (JObj d))" by (rule sanitize_sane)
  then show "component_node (recursive_sanitize (JObj d))"
    by (simp add: sanitize_dict sane_output_def del: recursive_sanitize.simps component_node.simps)
  show "recursive_sanitize (JArr xs) = JArr (filter is_dict (map recursive_sanitize xs))"
    by (rule sanitize_list)
qed

theorem sanitize_structure_witness:
  \<open>component_node (recursive_sanitize (JObj [(ustr ''children'', JStr (ustr ''[{"props": 3}, 4]''))]))
   \<and> recursive_sanitize (JArr [JInt 1, JObj [], JStr (ustr ''x'')]) = JArr [JObj []]\<close>
  using sanitize_structure [of \<open>[(ustr ''children'', JStr (ustr ''[{"props": 3}, 4]''))]\<close>
      "[JInt 1, JObj [], JStr (ustr ''x'')]"]
  by (simp add: json_eval str_eval sanitize_eval)

text \<open>
  C8. Default kind injection: a mapping that, once its values are sanitized, has a
  \<^verbatim>\<open>children\<close> or a \<^verbatim>\<open>props\<close> key and no \<^verbatim>\<open>type_name\<close> key is sanitized to the mapping of
  its sanitized values with \<^verbatim>\<open>type_name\<close> equal to \<^verbatim>\<open>'VStack'\<close> added at the end, and
  \<^verbatim>\<open>children\<close> and \<^verbatim>\<open>props\<close> repaired afterwards. So the result has the keys of the sanitized
  values followed by \<^verbatim>\<open>type_name\<close>, its \<^verbatim>\<open>type_name\<close> is \<^verbatim>\<open>'VStack'\<close>, and every key other than
  \<^verbatim>\<open>type_name\<close>, \<^verbatim>\<open>children\<close> and \<^verbatim>\<open>props\<close> keeps its sanitized value. The mapping
  \<^verbatim>\<open>{"children": []}\<close> becomes \<^verbatim>\<open>{"children": [], "type_name": "VStack"}\<close>.
\<close>

theorem default_kind_injection:
  assumes "has_key (sanitize_values d) (ustr ''children'')
           \<or> has_key (sanitize_values d) (ustr ''props'')"
    and "\<not> has_key (sanitize_values d) (ustr ''type_name'')"
  shows "recursive_sanitize (JObj d) =
           JObj (fix_props (fix_children
                  (sanitize_values d @ [(ustr ''type_name'', JStr (ustr ''VStack''))])))
         \<and> (\<exists>d'. recursive_sanitize (JObj d) = JObj d'
              \<and> map_of d' (ustr ''type_name'') = Some (JStr (ustr ''VStack''))
              \<and> map fst d' = map fst (sanitize_values d) @ [ustr ''type_name'']
              \<and> (\<forall>k. k \<noteq> ustr ''type_name'' \<and> k \<noteq> ustr ''children'' \<and> k \<noteq> ustr ''props'' \<longrightarrow>
                    map_of d' k = map_of (sanitize_values d) k))"
proof -
  let ?s = "sanitize_values d"
  let ?t = "?s @ [(ustr ''type_name'', JStr (ustr ''VStack''))]"
  from assms(2) have fresh: "ustr ''type_name'' \<notin> fst ` set ?s" by (simp add: has_key_iff)
  with assms have ft: "fix_type_name ?s = ?t"
    by (simp add: fix_type_name_def update_fresh)
  then have eq: "recursive_sanitize (JObj d) = JObj (fix_props (fix_children ?t))"
    by (simp add: sanitize_dict fixups_def del: recursive_sanitize.simps)
  from assms have tn: "map_of (fixups ?s) (ustr ''type_name'') = Some (JStr (ustr ''VStack''))"
    unfolding map_of_fixups_type_name has_key_def by auto
  have keys: "map fst (fix_props (fix_children ?t)) = map fst ?s @ [ustr ''type_name'']"
    by (simp add: fix_props_keys fix_children_keys)
  have other: "map_of (fix_props (fix_children ?t)) k = map_of ?s k"
    if "k \<noteq> ustr ''type_name'' \<and> k \<noteq> ustr ''children'' \<and> k \<noteq> ustr ''props''" for k
    using that by (simp add: map_of_fix_props map_of_fix_children map_add_def split: option.splits)
  from tn ft have tn': "map_of (fix_props (fix_children ?t)) (ustr ''type_name'') = Some (JStr (ustr ''VStack''))"
    by (simp add: fixups_def)
  from eq tn' keys other show ?thesis by blast
qed

theorem default_kind_injection_witness:
  "(has_key (sanitize_values [(ustr ''children'', JArr [])]) (ustr ''children'')
      \<or> has_key (sanitize_values [(ustr ''children'', JArr [])]) (ustr ''props''))
   \<and> \<not> has_key (sanitize_values [(ustr ''children'', JArr [])]) (ustr ''type_name'')
   \<and> recursive_sanitize (JObj [(ustr ''children'', JArr [])])
       = JObj [(ustr ''children'', JArr []), (ustr ''type_name'', JStr (ustr ''VStack''))]"
proof -
  have h1: "has_key (sanitize_values [(ustr ''children'', JArr [])]) (ustr ''children'')
      \<or> has_key (sanitize_values [(ustr ''children'', JArr [])]) (ustr ''props'')"
    by (simp add: sanitize_values_def has_key_def)
  have h2: "\<not> has_key (sanitize_values [(ustr ''children'', JArr [])]) (ustr ''type_name'')"
    by (simp add: sanitize_values_def has_key_def)
  have v: "fix_props (fix_children
             (sanitize_values [(ustr ''children'', JArr [])] @ [(ustr ''type_name'', JStr (ustr ''VStack''))]))
           = [(ustr ''children'', JArr []), (ustr ''type_name'', JStr (ustr ''VStack''))]"
    by (simp add: sanitize_values_def fix_props_def fix_children_def)
  from default_kind_injection [OF h1 h2] have
    "recursive_sanitize (JObj [(ustr ''children'', JArr [])])
       = JObj [(ustr ''children'', JArr []), (ustr ''type_name'', JStr (ustr ''VStack''))]"
    unfolding v by (rule conjunct1)
  with h1 h2 show ?thesis by blast
qed

text \<open>
  C9. Strings: the string is stripped; when the stripped string is bracketed by braces or by
  square brackets and \<^verbatim>\<open>json.loads\<close> accepts it, the result is the sanitized decoded value,
  a mapping or a sequence and not the string; when \<^verbatim>\<open>json.loads\<close> rejects it, or the string
  is not bracketed, the result is the stripped string itself.
\<close>

theorem sanitize_string:
  "recursive_sanitize (JStr s) =
     (if bracketed (str_strip s)
      then (case json_loads (str_strip s) of
              Some parsed \<Rightarrow> recursive_sanitize parsed
            | None \<Rightarrow> JStr (str_strip s))
      else JStr (str_strip s))
   \<and> (\<forall>parsed. bracketed (str_strip s) \<and> json_loads (str_strip s) = Some parsed \<longrightarrow>
         recursive_sanitize (JStr s) = recursive_sanitize parsed
         \<and> (is_dict (recursive_sanitize (JStr s)) \<or> is_list (recursive_sanitize (JStr s))))
   \<and> (json_loads (str_strip s) = None \<longrightarrow> recursive_sanitize (JStr s) = JStr (str_strip s))
   \<and> (\<not> bracketed (str_strip s) \<longrightarrow> recursive_sanitize (JStr s) = JStr (str_strip s))"
proof (intro conjI allI impI)
  show "recursive_sanitize (JStr s) =
     (if bracketed (str_strip s)
      then (case json_loads (str_strip s) of
              Some parsed \<Rightarrow> recursive_sanitize parsed
            | None \<Rightarrow> JStr (str_strip s))
      else JStr (str_strip s))"
    by (simp add: Let_def)
  show "recursive_sanitize (JStr s) = JStr (str_strip s)" if "json_loads (str_strip s) = None"
    using that by (simp add: Let_def)
  show "recursive_sanitize (JStr s) = JStr (str_strip s)" if "\<not> bracketed (str_strip s)"
    using that by (simp add: Let_def)
  fix parsed
  assume bp: "bracketed (str_strip s) \<and> json_loads (str_strip s) = Some parsed"
  then have b: "bracketed (str_strip s)" and p: "json_loads (str_strip s) = Some parsed"
    by simp_all
  from b p show e: "recursive_sanitize (JStr s) = recursive_sanitize parsed"
    by (simp add: Let_def)
  from b have "is_dict parsed \<or> is_list parsed"
    using json_loads_object [OF _ p] json_loads_array [OF _ p] by (auto simp: bracketed_def)
  then have "is_dict (recursive_sanitize parsed) \<or> is_list (recursive_sanitize parsed)"
    by (cases parsed) (simp_all add: sanitize_dict sanitize_list del: recursive_sanitize.simps)
  with e show "is_dict (recursive_sanitize (JStr s)) \<or> is_list (recursive_sanitize (JStr s))"
    by simp
qed

theorem sanitize_string_witness:
  \<open>bracketed (str_strip (ustr '' {"a": 1} ''))
   \<and> json_loads (str_strip (ustr '' {"a": 1} '')) = Some (JObj [(ustr ''a'', JInt 1)])
   \<and> recursive_sanitize (JStr (ustr '' {"a": 1} '')) = JObj [(ustr ''a'', JInt 1)]
   \<and> json_loads (str_strip (ustr '' {oops} '')) = None
   \<and> recursive_sanitize (JStr (ustr '' {oops} '')) = JStr (ustr ''{oops}'')
   \<and> \<not> bracketed (str_strip (ustr ''  plain text''))
   \<and> recursive_sanitize (JStr (ustr ''  plain text'')) = JStr (ustr ''plain text'')\<close>
proof -
  have s1: \<open>str_strip (ustr '' {"a": 1} '') = ustr ''{"a": 1}''\<close>
    and s2: \<open>str_strip (ustr '' {oops} '') = ustr ''{oops}''\<close>
    and s3: \<open>str_strip (ustr ''  plain text'') = ustr ''plain text''\<close>
    by (simp_all add: str_eval)
  have b1: \<open>bracketed (ustr ''{"a": 1}'')\<close> and b3: \<open>\<not> bracketed (ustr ''plain text'')\<close>
    by (simp_all add: str_eval)
  have l1: \<open>json_loads (ustr ''{"a": 1}'') = Some (JObj [(ustr ''a'', JInt 1)])\<close>
    and l2: \<open>json_loads (ustr ''{oops}'') = None\<close>
    by (simp_all add: json_eval str_eval)
  have v: "recursive_sanitize (JObj [(ustr ''a'', JInt 1)]) = JObj [(ustr ''a'', JInt 1)]"
    by (simp add: sanitize_eval)
  from sanitize_string [of \<open>ustr '' {"a": 1} ''\<close>] sanitize_string [of \<open>ustr '' {oops} ''\<close>]
    sanitize_string [of \<open>ustr ''  plain text''\<close>]
  show ?thesis
    unfolding s1 s2 s3 using b1 b3 l1 l2 v by simp
qed

text \<open>
  C10. The sanitizer is total: its recursion ends on every JSON value, the string case
  included, because the value decoded from a string is strictly smaller than the string,
  and an element is strictly smaller than the sequence or mapping that holds it. No
  operation of the function raises outside the \<^verbatim>\<open>try\<close> of line 94, so its result is a
  value.
\<close>

theorem sanitize_terminates:
  "recursive_sanitize_dom v
   \<and> (\<forall>s parsed. json_loads (str_strip s) = Some parsed \<longrightarrow> jsize parsed < jsize (JStr s))
   \<and> (\<forall>xs x. x \<in> set xs \<longrightarrow> jsize x < jsize (JArr xs))
   \<and> (\<forall>d k x. (k, x) \<in> set d \<longrightarrow> jsize x < jsize (JObj d))"
proof (intro conjI allI impI)
  show "recursive_sanitize_dom v" by (rule recursive_sanitize_total)
next
  fix s parsed
  assume "json_loads (str_strip s) = Some parsed"
  from json_loads_size [OF this] length_str_strip [of s]
  show "jsize parsed < jsize (JStr s)" by simp
next
  fix xs :: "json list" and x
  assume "x \<in> set xs"
  from jsize_member [OF this] show "jsize x < jsize (JArr xs)" by simp
next
  fix d :: pydict and k x
  assume "(k, x) \<in> set d"
  from jsize_item [OF this] show "jsize x < jsize (JObj d)" by simp
qed

theorem sanitize_terminates_witness:
  \<open>recursive_sanitize_dom (JStr (ustr '' [{"a": "[1]"}] ''))
   \<and> json_loads (str_strip (ustr '' [{"a": "[1]"}] ''))
       = Some (JArr [JObj [(ustr ''a'', JStr (ustr ''[1]''))]])
   \<and> jsize (JArr [JObj [(ustr ''a'', JStr (ustr ''[1]''))]]) < jsize (JStr (ustr '' [{"a": "[1]"}] ''))
   \<and> JInt 1 \<in> set [JInt 1, JNull] \<and> jsize (JInt 1) < jsize (JArr [JInt 1, JNull])
   \<and> (ustr ''a'', JNull) \<in> set [(ustr ''a'', JNull)]
   \<and> jsize JNull < jsize (JObj [(ustr ''a'', JNull)])\<close>
proof -
  have l: \<open>json_loads (str_strip (ustr '' [{"a": "[1]"}] ''))
       = Some (JArr [JObj [(ustr ''a'', JStr (ustr ''[1]''))]])\<close>
    by (simp add: json_eval str_eval)
  from sanitize_terminates [of \<open>JStr (ustr '' [{"a": "[1]"}] '')\<close>] l
  show ?thesis by simp
qed

text \<open>
  C5. The response extractor strips the text, narrows it to the contents of a \<^verbatim>\<open>```json\<close>
  fenced block when one is present (the text after the first \<^verbatim>\<open>```json\<close>, up to the next
  fence), and decodes the span from the first \<^verbatim>\<open>{\<close> to the last \<^verbatim>\<open>}\<close> of the narrowed text.
  A result is always a mapping; a text in which no \<^verbatim>\<open>}\<close> follows a \<^verbatim>\<open>{\<close> gives no result.
\<close>

theorem extract_json_spec:
  "extract_json_from_text text =
     (let t = narrow text
      in if 0x7B \<in> set t \<and> 0x7D \<in> set t then json_loads (brace_span t) else None)
   \<and> narrow text =
       (let t = str_strip text
        in if contains t (ustr ''```json'')
           then str_strip (before_first (ustr ''```'')
                  (before_first (ustr ''```json'') (after_first (ustr ''```json'') t)))
           else t)
   \<and> (\<forall>v. extract_json_from_text text = Some v \<longrightarrow> is_dict v)
   \<and> (0x7D \<notin> set (dropWhile (\<lambda>c. c \<noteq> 0x7B) text) \<longrightarrow> extract_json_from_text text = None)"
  using extract_span [of "text"] narrow_fenced [of "text"] extract_is_dict [of "text"]
    extract_no_pair [of "text"]
  by blast

theorem extract_json_spec_witness:
  \<open>extract_json_from_text (ustr ''```json\<newline>{"x":1}\<newline>```'') = Some (JObj [(ustr ''x'', JInt 1)])
   \<and> is_dict (JObj [(ustr ''x'', JInt 1)])
   \<and> 0x7D \<notin> set (dropWhile (\<lambda>c. c \<noteq> 0x7B) (ustr ''a } then { b''))
   \<and> extract_json_from_text (ustr ''a } then { b'') = None\<close>
proof -
  have e: \<open>extract_json_from_text (ustr ''```json\<newline>{"x":1}\<newline>```'')
           = Some (JObj [(ustr ''x'', JInt 1)])\<close>
    by (simp add: extract_eval json_eval str_eval)
  have h: \<open>0x7D \<notin> set (dropWhile (\<lambda>c. c \<noteq> 0x7B) (ustr ''a } then { b''))\<close>
    by (simp add: ustr_def)
  from extract_json_spec [of \<open>ustr ''```json\<newline>{"x":1}\<newline>```''\<close>] e
  have d: \<open>is_dict (JObj [(ustr ''x'', JInt 1)])\<close> by blast
  from extract_json_spec [of \<open>ustr ''a } then { b''\<close>] h
  have n: \<open>extract_json_from_text (ustr ''a } then { b'') = None\<close> by blast
  from e d h n show ?thesis by blast
qed

text \<open>
  C3, as the code has it. When the subprocess accepts the three writes of the handshake,
  the first reply can be read (it is missing at the end of the output, or is a line that
  \<^verbatim>\<open>json.loads\<close> accepts) and the reply to \<^verbatim>\<open>tools/list\<close> is missing, or is a mapping
  without \<^verbatim>\<open>result\<close>, or with a \<^verbatim>\<open>result\<close> mapping without \<^verbatim>\<open>tools\<close>, the handshake ends with
  the empty tool list, and the catalog resolved from it is the default catalog. (A reply is
  missing while the writes are accepted when the subprocess closes its output and still
  reads, or exits after the last write.) An exception leaves \<^verbatim>\<open>_handshake\<close> in these cases:
  \<^verbatim>\<open>BrokenPipeError\<close> when the subprocess accepts no write, or fewer than three and the first
  reply can be read; \<^verbatim>\<open>JSONDecodeError\<close> when a reply that is read is a line \<^verbatim>\<open>json.loads\<close>
  rejects; \<^verbatim>\<open>AttributeError\<close> when the reply to \<^verbatim>\<open>tools/list\<close> is not a mapping or its
  \<^verbatim>\<open>result\<close> is not one. The first reply is only decoded, its contents are not looked at.
  In the remaining case the reply to \<^verbatim>\<open>tools/list\<close> has a \<^verbatim>\<open>result\<close> mapping with \<^verbatim>\<open>tools\<close>, and
  the handshake ends with that value when it has a length.
\<close>

theorem handshake_degrades:
  "(\<forall>r1 res. 3 \<le> writes_left p \<and> reply_of (stdout_lines p) = Inr r1
        \<and> reply_of (tl (stdout_lines p)) = Inr res \<and> reply_without_tools res \<longrightarrow>
      handshake p = Inr (JArr [], \<lparr>sent = sent p @ [init_req, initialized_note, tools_req],
                                  stdout_lines = tl (tl (stdout_lines p)),
                                  writes_left = writes_left p - 3\<rparr>))
   \<and> (\<forall>r1. 3 \<le> writes_left p \<and> reply_of (stdout_lines p) = Inr r1
        \<and> tl (stdout_lines p) = [] \<longrightarrow>
      handshake p = Inr (JArr [], \<lparr>sent = sent p @ [init_req, initialized_note, tools_req],
                                  stdout_lines = [], writes_left = writes_left p - 3\<rparr>))
   \<and> resolve_catalog (JArr []) = default_components
   \<and> reply_of [] = Inr (JObj [])
   \<and> (\<forall>l rest. l \<noteq> [] \<and> json_loads l = None \<longrightarrow> reply_of (l # rest) = Inl JSONDecodeError)
   \<and> (writes_left p = 0 \<longrightarrow> handshake p = Inl BrokenPipeError)
   \<and> (\<forall>r1. writes_left p < 3 \<and> reply_of (stdout_lines p) = Inr r1 \<longrightarrow>
        handshake p = Inl BrokenPipeError)
   \<and> (0 < writes_left p \<and> reply_of (stdout_lines p) = Inl JSONDecodeError \<longrightarrow>
        handshake p = Inl JSONDecodeError)
   \<and> (\<forall>r1. 3 \<le> writes_left p \<and> reply_of (stdout_lines p) = Inr r1
        \<and> reply_of (tl (stdout_lines p)) = Inl JSONDecodeError \<longrightarrow>
        handshake p = Inl JSONDecodeError)
   \<and> (\<forall>r1 res. 3 \<le> writes_left p \<and> reply_of (stdout_lines p) = Inr r1
        \<and> reply_of (tl (stdout_lines p)) = Inr res \<and> result_not_mapping res \<longrightarrow>
        handshake p = Inl AttributeError)
   \<and> (\<forall>r1 d r t. 3 \<le> writes_left p \<and> reply_of (stdout_lines p) = Inr r1
        \<and> reply_of (tl (stdout_lines p)) = Inr (JObj d)
        \<and> map_of d (ustr ''result'') = Some (JObj r) \<and> map_of r (ustr ''tools'') = Some t \<longrightarrow>
        handshake p =
          bind_err (py_len t) (\<lambda>_.
            Inr (t, \<lparr>sent = sent p @ [init_req, initialized_note, tools_req],
                     stdout_lines = tl (tl (stdout_lines p)),
                     writes_left = writes_left p - 3\<rparr>)))"
proof (intro conjI allI impI)
  fix r1 res
  assume "3 \<le> writes_left p \<and> reply_of (stdout_lines p) = Inr r1
        \<and> reply_of (tl (stdout_lines p)) = Inr res \<and> reply_without_tools res"
  then show "handshake p = Inr (JArr [], \<lparr>sent = sent p @ [init_req, initialized_note, tools_req],
                                  stdout_lines = tl (tl (stdout_lines p)),
                                  writes_left = writes_left p - 3\<rparr>)"
    unfolding handshake_steps using without_tools_get [of res] by (simp add: bind_err_def)
next
  fix r1
  assume a: "3 \<le> writes_left p \<and> reply_of (stdout_lines p) = Inr r1 \<and> tl (stdout_lines p) = []"
  have "reply_without_tools (JObj [])" by (simp add: reply_without_tools_def)
  from a without_tools_get [OF this]
  show "handshake p = Inr (JArr [], \<lparr>sent = sent p @ [init_req, initialized_note, tools_req],
                                  stdout_lines = [], writes_left = writes_left p - 3\<rparr>)"
    unfolding handshake_steps by (simp add: reply_of_def bind_err_def)
next
  show "resolve_catalog (JArr []) = default_components" by (simp add: resolve_catalog_def)
next
  show "reply_of [] = Inr (JObj [])" by (simp add: reply_of_def)
next
  fix l rest
  assume "l \<noteq> [] \<and> json_loads l = None"
  then show "reply_of (l # rest) = Inl JSONDecodeError" by (simp add: reply_of_def)
next
  assume "writes_left p = 0"
  then show "handshake p = Inl BrokenPipeError" unfolding handshake_steps by simp
next
  fix r1
  assume "writes_left p < 3 \<and> reply_of (stdout_lines p) = Inr r1"
  then show "handshake p = Inl BrokenPipeError"
    unfolding handshake_steps by (simp add: bind_err_def)
next
  assume "0 < writes_left p \<and> reply_of (stdout_lines p) = Inl JSONDecodeError"
  then show "handshake p = Inl JSONDecodeError"
    unfolding handshake_steps by (simp add: bind_err_def)
next
  fix r1
  assume "3 \<le> writes_left p \<and> reply_of (stdout_lines p) = Inr r1
        \<and> reply_of (tl (stdout_lines p)) = Inl JSONDecodeError"
  then show "handshake p = Inl JSONDecodeError"
    unfolding handshake_steps by (simp add: bind_err_def)
next
  fix r1 res
  assume "3 \<le> writes_left p \<and> reply_of (stdout_lines p) = Inr r1
        \<and> reply_of (tl (stdout_lines p)) = Inr res \<and> result_not_mapping res"
  then show "handshake p = Inl AttributeError"
    unfolding handshake_steps using without_result_get [of res] by (simp add: bind_err_def)
next
  fix r1 d r t
  assume "3 \<le> writes_left p \<and> reply_of (stdout_lines p) = Inr r1
        \<and> reply_of (tl (stdout_lines p)) = Inr (JObj d)
        \<and> map_of d (ustr ''result'') = Some (JObj r) \<and> map_of r (ustr ''tools'') = Some t"
  then show "handshake p =
          bind_err (py_len t) (\<lambda>_.
            Inr (t, \<lparr>sent = sent p @ [init_req, initialized_note, tools_req],
                     stdout_lines = tl (tl (stdout_lines p)),
                     writes_left = writes_left p - 3\<rparr>))"
    unfolding handshake_steps by (simp add: bind_err_def)
qed

theorem handshake_degrades_witness:
  \<open>reply_of [ustr ''{"id": 1, "result": {}}'', ustr ''{"id": 2, "result": {}}''] = Inr (JObj [(ustr ''id'', JInt 1), (ustr ''result'', JObj [])])
   \<and> reply_of [ustr ''{"id": 2, "result": {}}''] = Inr (JObj [(ustr ''id'', JInt 2), (ustr ''result'', JObj [])])
   \<and> reply_without_tools (JObj [(ustr ''id'', JInt 2), (ustr ''result'', JObj [])])
   \<and> handshake \<lparr>sent = [], stdout_lines = [ustr ''{"id": 1, "result": {}}'', ustr ''{"id": 2, "result": {}}''], writes_left = 3\<rparr>
     = Inr (JArr [], \<lparr>sent = [init_req, initialized_note, tools_req], stdout_lines = [],
                      writes_left = 0\<rparr>)
   \<and> handshake \<lparr>sent = [], stdout_lines = [ustr ''{"id": 1, "result": {}}''], writes_left = 3\<rparr>
     = Inr (JArr [], \<lparr>sent = [init_req, initialized_note, tools_req], stdout_lines = [],
                      writes_left = 0\<rparr>)
   \<and> handshake \<lparr>sent = [], stdout_lines = [], writes_left = 0\<rparr> = Inl BrokenPipeError
   \<and> reply_of [] = Inr (JObj [])
   \<and> handshake \<lparr>sent = [], stdout_lines = [], writes_left = 1\<rparr> = Inl BrokenPipeError
   \<and> ustr ''not json'' \<noteq> [] \<and> json_loads (ustr ''not json'') = None
   \<and> reply_of [ustr ''not json''] = Inl JSONDecodeError
   \<and> handshake \<lparr>sent = [], stdout_lines = [ustr ''not json''], writes_left = 3\<rparr>
     = Inl JSONDecodeError
   \<and> handshake \<lparr>sent = [], stdout_lines = [ustr ''{"id": 1, "result": {}}'', ustr ''not json''], writes_left = 3\<rparr>
     = Inl JSONDecodeError
   \<and> reply_of [ustr ''{"id": 2, "result": null}''] = Inr (JObj [(ustr ''id'', JInt 2), (ustr ''result'', JNull)])
   \<and> result_not_mapping (JObj [(ustr ''id'', JInt 2), (ustr ''result'', JNull)])
   \<and> handshake \<lparr>sent = [], stdout_lines = [ustr ''{"id": 1, "result": {}}'', ustr ''{"id": 2, "result": null}''], writes_left = 3\<rparr>
     = Inl AttributeError
   \<and> reply_of [ustr ''{"id": 2, "result": {"tools": [{"name": "generate_oxid_ui"}]}}'']
     = Inr (JObj [(ustr ''id'', JInt 2), (ustr ''result'', JObj [(ustr ''tools'', JArr [JObj [(ustr ''name'', JStr (ustr ''generate_oxid_ui''))]])])])
   \<and> handshake \<lparr>sent = [], stdout_lines = [ustr ''{"id": 1, "result": {}}'', ustr ''{"id": 2, "result": {"tools": [{"name": "generate_oxid_ui"}]}}''], writes_left = 3\<rparr>
     = Inr (JArr [JObj [(ustr ''name'', JStr (ustr ''generate_oxid_ui''))]],
            \<lparr>sent = [init_req, initialized_note, tools_req], stdout_lines = [], writes_left = 0\<rparr>)\<close>
proof -
  let ?r1 = "JObj [(ustr ''id'', JInt 1), (ustr ''result'', JObj [])]"
  let ?r2 = "JObj [(ustr ''id'', JInt 2), (ustr ''result'', JObj [])]"
  let ?r3 = "JObj [(ustr ''id'', JInt 2), (ustr ''result'', JNull)]"
  have a: \<open>reply_of [ustr ''{"id": 1, "result": {}}'', ustr ''{"id": 2, "result": {}}''] = Inr ?r1\<close> and a1: \<open>reply_of [ustr ''{"id": 1, "result": {}}''] = Inr ?r1\<close>
    and a2: \<open>reply_of [ustr ''{"id": 1, "result": {}}'', ustr ''not json''] = Inr ?r1\<close> and a3: \<open>reply_of [ustr ''{"id": 1, "result": {}}'', ustr ''{"id": 2, "result": null}''] = Inr ?r1\<close>
    by (simp_all add: reply_of_def json_eval str_eval)
  have b: \<open>reply_of [ustr ''{"id": 2, "result": {}}''] = Inr ?r2\<close> and b3: \<open>reply_of [ustr ''{"id": 2, "result": null}''] = Inr ?r3\<close>
    by (simp_all add: reply_of_def json_eval str_eval)
  have c: "reply_without_tools ?r2" by (simp add: reply_without_tools_def)
  have c3: "result_not_mapping ?r3" by (simp add: result_not_mapping_def)
  have n: \<open>ustr ''not json'' \<noteq> []\<close> and j: \<open>json_loads (ustr ''not json'') = None\<close>
    by (simp_all add: json_eval str_eval)
  from handshake_degrades [of \<open>\<lparr>sent = [], stdout_lines = [], writes_left = 0\<rparr>\<close>] n j
  have e0: "reply_of [] = Inr (JObj [])"
    and en: \<open>reply_of [ustr ''not json''] = Inl JSONDecodeError\<close>
    and h0: "handshake \<lparr>sent = [], stdout_lines = [], writes_left = 0\<rparr> = Inl BrokenPipeError"
    by simp_all
  from handshake_degrades [of \<open>\<lparr>sent = [], stdout_lines = [], writes_left = 1\<rparr>\<close>] e0
  have h1: "handshake \<lparr>sent = [], stdout_lines = [], writes_left = 1\<rparr> = Inl BrokenPipeError"
    by simp
  from handshake_degrades [of \<open>\<lparr>sent = [], stdout_lines = [ustr ''{"id": 1, "result": {}}'', ustr ''{"id": 2, "result": {}}''], writes_left = 3\<rparr>\<close>] a b c
  have d: \<open>handshake \<lparr>sent = [], stdout_lines = [ustr ''{"id": 1, "result": {}}'', ustr ''{"id": 2, "result": {}}''], writes_left = 3\<rparr>
     = Inr (JArr [], \<lparr>sent = [init_req, initialized_note, tools_req], stdout_lines = [],
                      writes_left = 0\<rparr>)\<close>
    by simp
  from handshake_degrades [of \<open>\<lparr>sent = [], stdout_lines = [ustr ''{"id": 1, "result": {}}''], writes_left = 3\<rparr>\<close>] a1
  have d1: \<open>handshake \<lparr>sent = [], stdout_lines = [ustr ''{"id": 1, "result": {}}''], writes_left = 3\<rparr>
     = Inr (JArr [], \<lparr>sent = [init_req, initialized_note, tools_req], stdout_lines = [],
                      writes_left = 0\<rparr>)\<close>
    by simp
  from handshake_degrades [of \<open>\<lparr>sent = [], stdout_lines = [ustr ''not json''], writes_left = 3\<rparr>\<close>] en
  have f: \<open>handshake \<lparr>sent = [], stdout_lines = [ustr ''not json''], writes_left = 3\<rparr>
     = Inl JSONDecodeError\<close>
    by simp
  from handshake_degrades [of \<open>\<lparr>sent = [], stdout_lines = [ustr ''{"id": 1, "result": {}}'', ustr ''not json''], writes_left = 3\<rparr>\<close>] a2 en
  have g: \<open>handshake \<lparr>sent = [], stdout_lines = [ustr ''{"id": 1, "result": {}}'', ustr ''not json''], writes_left = 3\<rparr>
     = Inl JSONDecodeError\<close>
    by simp
  from handshake_degrades [of \<open>\<lparr>sent = [], stdout_lines = [ustr ''{"id": 1, "result": {}}'', ustr ''{"id": 2, "result": null}''], writes_left = 3\<rparr>\<close>] a3 b3 c3
  have h: \<open>handshake \<lparr>sent = [], stdout_lines = [ustr ''{"id": 1, "result": {}}'', ustr ''{"id": 2, "result": null}''], writes_left = 3\<rparr> = Inl AttributeError\<close>
    by simp
  have a4: \<open>reply_of [ustr ''{"id": 1, "result": {}}'', ustr ''{"id": 2, "result": {"tools": [{"name": "generate_oxid_ui"}]}}''] = Inr ?r1\<close>
    by (simp add: reply_of_def json_eval str_eval)
  have b4: \<open>reply_of [ustr ''{"id": 2, "result": {"tools": [{"name": "generate_oxid_ui"}]}}'']
     = Inr (JObj [(ustr ''id'', JInt 2), (ustr ''result'', JObj [(ustr ''tools'', JArr [JObj [(ustr ''name'', JStr (ustr ''generate_oxid_ui''))]])])])\<close>
    by (simp add: reply_of_def json_eval str_eval)
  from handshake_degrades [of \<open>\<lparr>sent = [], stdout_lines = [ustr ''{"id": 1, "result": {}}'', ustr ''{"id": 2, "result": {"tools": [{"name": "generate_oxid_ui"}]}}''], writes_left = 3\<rparr>\<close>] a4 b4
  have k: \<open>handshake \<lparr>sent = [], stdout_lines = [ustr ''{"id": 1, "result": {}}'', ustr ''{"id": 2, "result": {"tools": [{"name": "generate_oxid_ui"}]}}''], writes_left = 3\<rparr>
     = Inr (JArr [JObj [(ustr ''name'', JStr (ustr ''generate_oxid_ui''))]],
            \<lparr>sent = [init_req, initialized_note, tools_req], stdout_lines = [], writes_left = 0\<rparr>)\<close>
    by (simp add: bind_err_def)
  from a b c d d1 h0 e0 h1 n j en f g b3 c3 h b4 k show ?thesis by simp
qed

text \<open>
  C3, as stated, fails. A subprocess that has exited leaves its output closed and accepts no
  write, or one before the exit is seen: \<^verbatim>\<open>_send\<close> raises \<^verbatim>\<open>BrokenPipeError\<close>. A reply line
  that is not well-formed JSON raises \<^verbatim>\<open>JSONDecodeError\<close> out of \<^verbatim>\<open>_handshake\<close>, whichever of the
  two replies it is, and a reply to \<^verbatim>\<open>tools/list\<close> whose \<^verbatim>\<open>result\<close> is \<^verbatim>\<open>null\<close> raises
  \<^verbatim>\<open>AttributeError\<close>. Nothing in the client catches them.
\<close>

theorem handshake_malformed_counterexample:
  \<open>handshake \<lparr>sent = [], stdout_lines = [], writes_left = 0\<rparr> = Inl BrokenPipeError
   \<and> handshake \<lparr>sent = [], stdout_lines = [], writes_left = 1\<rparr> = Inl BrokenPipeError
   \<and> json_loads (ustr ''not json'') = None
   \<and> handshake \<lparr>sent = [], stdout_lines = [ustr ''{"id": 1}'', ustr ''not json''], writes_left = 3\<rparr>
       = Inl JSONDecodeError
   \<and> handshake \<lparr>sent = [], stdout_lines = [ustr ''not json'', ustr ''{"id": 2, "result": {"tools": []}}''],
         writes_left = 3\<rparr>
       = Inl JSONDecodeError
   \<and> handshake \<lparr>sent = [], stdout_lines = [ustr ''{"id": 1}'', ustr ''{"id": 2, "result": null}''],
         writes_left = 3\<rparr>
       = Inl AttributeError\<close>
  by (simp add: handshake_def recv_def reply_of_def send_def bind_err_def json_eval str_eval)

text \<open>
  C4, as the code has it. For the reply \<open>res\<close> that \<^verbatim>\<open>call_tool\<close> reads: when it is a mapping
  whose \<^verbatim>\<open>error\<close> is a mapping with a \<^verbatim>\<open>message\<close>, the result is the formatted error string,
  in which the caller's test \<^verbatim>\<open>"Error:" in rust_code\<close> succeeds; when it is a mapping
  without \<^verbatim>\<open>error\<close> and the lookup \<^verbatim>\<open>result.content[0].text\<close> fails with \<^verbatim>\<open>KeyError\<close> or
  \<^verbatim>\<open>IndexError\<close>, the result is \<^verbatim>\<open>str(res)\<close>; when the lookup succeeds, its value.
  Other shapes raise: \<^verbatim>\<open>KeyError\<close> when the \<^verbatim>\<open>error\<close> mapping has no \<^verbatim>\<open>message\<close>, \<^verbatim>\<open>TypeError\<close>
  when \<^verbatim>\<open>error\<close> is not a mapping or when the lookup fails with \<^verbatim>\<open>TypeError\<close>. \<^verbatim>\<open>call_tool\<close>
  reads the reply after writing its request; a subprocess that accepts no write makes it
  raise \<^verbatim>\<open>BrokenPipeError\<close>.
\<close>

theorem call_tool_results:
  "(\<forall>d e m. res = JObj d \<and> map_of d (ustr ''error'') = Some (JObj e)
        \<and> map_of e (ustr ''message'') = Some m \<longrightarrow>
      tool_result repr res = Inr (JStr (error_prefix @ py_str repr m))
      \<and> py_in (ustr ''Error:'') (JStr (error_prefix @ py_str repr m)) = Inr True)
   \<and> (\<forall>d. res = JObj d \<and> map_of d (ustr ''error'') = None
        \<and> (nested_text res = Inl KeyError \<or> nested_text res = Inl IndexError) \<longrightarrow>
      tool_result repr res = Inr (JStr (py_str repr res)))
   \<and> (\<forall>d t. res = JObj d \<and> map_of d (ustr ''error'') = None \<and> nested_text res = Inr t \<longrightarrow>
      tool_result repr res = Inr t)
   \<and> (\<forall>d e. res = JObj d \<and> map_of d (ustr ''error'') = Some (JObj e)
        \<and> map_of e (ustr ''message'') = None \<longrightarrow>
      tool_result repr res = Inl KeyError)
   \<and> (\<forall>d v. res = JObj d \<and> map_of d (ustr ''error'') = Some v \<and> \<not> is_dict v \<longrightarrow>
      tool_result repr res = Inl TypeError)
   \<and> (\<forall>d. res = JObj d \<and> map_of d (ustr ''error'') = None \<and> nested_text res = Inl TypeError \<longrightarrow>
      tool_result repr res = Inl TypeError)
   \<and> fst (call_tool repr p name args) =
       (if writes_left p = 0 then Inl BrokenPipeError
        else bind_err (reply_of (stdout_lines p)) (tool_result repr))"
proof (intro conjI allI impI)
  fix d e m
  assume "res = JObj d \<and> map_of d (ustr ''error'') = Some (JObj e)
        \<and> map_of e (ustr ''message'') = Some m"
  then show "tool_result repr res = Inr (JStr (error_prefix @ py_str repr m))"
    by (simp add: tool_result_def bind_err_def has_key_def)
  show "py_in (ustr ''Error:'') (JStr (error_prefix @ py_str repr m)) = Inr True"
    by (rule error_prefix_detected)
next
  fix d
  assume "res = JObj d \<and> map_of d (ustr ''error'') = None
        \<and> (nested_text res = Inl KeyError \<or> nested_text res = Inl IndexError)"
  then show "tool_result repr res = Inr (JStr (py_str repr res))"
    by (auto simp: tool_result_def bind_err_def has_key_def)
next
  fix d t
  assume "res = JObj d \<and> map_of d (ustr ''error'') = None \<and> nested_text res = Inr t"
  then show "tool_result repr res = Inr t"
    by (auto simp: tool_result_def bind_err_def has_key_def)
next
  fix d e
  assume "res = JObj d \<and> map_of d (ustr ''error'') = Some (JObj e)
        \<and> map_of e (ustr ''message'') = None"
  then show "tool_result repr res = Inl KeyError"
    by (simp add: tool_result_def bind_err_def has_key_def)
next
  fix d v
  assume "res = JObj d \<and> map_of d (ustr ''error'') = Some v \<and> \<not> is_dict v"
  then show "tool_result repr res = Inl TypeError"
    by (cases v) (simp_all add: tool_result_def bind_err_def has_key_def)
next
  fix d
  assume "res = JObj d \<and> map_of d (ustr ''error'') = None \<and> nested_text res = Inl TypeError"
  then show "tool_result repr res = Inl TypeError"
    by (auto simp: tool_result_def bind_err_def has_key_def)
next
  show "fst (call_tool repr p name args) =
       (if writes_left p = 0 then Inl BrokenPipeError
        else bind_err (reply_of (stdout_lines p)) (tool_result repr))"
    by (simp add: call_tool_steps)
qed

theorem call_tool_results_witness:
  \<open>tool_result (\<lambda>v. ustr ''{}'')
      (JObj [(ustr ''error'', JObj [(ustr ''code'', JInt (- 1)), (ustr ''message'', JStr (ustr ''bad''))])])
     = Inr (JStr (0x274C # ustr '' Error: bad''))
   \<and> py_in (ustr ''Error:'') (JStr (0x274C # ustr '' Error: bad'')) = Inr True
   \<and> nested_text (JObj [(ustr ''result'', JObj [(ustr ''content'', JArr [])])]) = Inl IndexError
   \<and> tool_result (\<lambda>v. ustr ''{}'') (JObj [(ustr ''result'', JObj [(ustr ''content'', JArr [])])])
     = Inr (JStr (ustr ''{}''))
   \<and> nested_text (JObj [(ustr ''result'',
        JObj [(ustr ''content'', JArr [JObj [(ustr ''text'', JStr (ustr ''fn main() {}''))]])])])
     = Inr (JStr (ustr ''fn main() {}''))
   \<and> tool_result (\<lambda>v. ustr ''{}'') (JObj [(ustr ''result'',
        JObj [(ustr ''content'', JArr [JObj [(ustr ''text'', JStr (ustr ''fn main() {}''))]])])])
     = Inr (JStr (ustr ''fn main() {}''))
   \<and> tool_result (\<lambda>v. ustr ''{}'') (JObj [(ustr ''error'', JObj [(ustr ''code'', JInt (- 1))])])
     = Inl KeyError
   \<and> \<not> is_dict (JStr (ustr ''boom''))
   \<and> tool_result (\<lambda>v. ustr ''{}'') (JObj [(ustr ''error'', JStr (ustr ''boom''))]) = Inl TypeError
   \<and> nested_text (JObj [(ustr ''result'', JNull)]) = Inl TypeError
   \<and> tool_result (\<lambda>v. ustr ''{}'') (JObj [(ustr ''result'', JNull)]) = Inl TypeError
   \<and> fst (call_tool (\<lambda>v. ustr ''{}'') \<lparr>sent = [], stdout_lines = [], writes_left = 0\<rparr>
          (JStr (ustr ''generate_oxid_ui'')) (JObj [])) = Inl BrokenPipeError
   \<and> fst (call_tool (\<lambda>v. ustr ''{}'') \<lparr>sent = [], stdout_lines = [], writes_left = 1\<rparr>
          (JStr (ustr ''generate_oxid_ui'')) (JObj [])) = Inr (JStr (ustr ''{}''))\<close>
proof -
  let ?r = "\<lambda>v::json. ustr ''{}''"
  let ?a = "JObj [(ustr ''error'', JObj [(ustr ''code'', JInt (- 1)), (ustr ''message'', JStr (ustr ''bad''))])]"
  let ?b = "JObj [(ustr ''result'', JObj [(ustr ''content'', JArr [])])]"
  let ?c = "JObj [(ustr ''result'',
        JObj [(ustr ''content'', JArr [JObj [(ustr ''text'', JStr (ustr ''fn main() {}''))]])])]"
  have nb: "nested_text ?b = Inl IndexError" by (simp add: nested_text_def bind_err_def)
  have nc: "nested_text ?c = Inr (JStr (ustr ''fn main() {}''))"
    by (simp add: nested_text_def bind_err_def)
  have p: "error_prefix @ py_str ?r (JStr (ustr ''bad'')) = 0x274C # ustr '' Error: bad''"
    by (simp add: error_prefix_def ustr_def)
  from call_tool_results [of ?a ?r] p
  have 1: "tool_result ?r ?a = Inr (JStr (0x274C # ustr '' Error: bad''))"
    and 2: "py_in (ustr ''Error:'') (JStr (0x274C # ustr '' Error: bad'')) = Inr True"
    by simp_all
  from call_tool_results [of ?b ?r] nb have 3: "tool_result ?r ?b = Inr (JStr (ustr ''{}''))"
    by simp
  from call_tool_results [of ?c ?r] nc have 4: "tool_result ?r ?c = Inr (JStr (ustr ''fn main() {}''))"
    by simp
  let ?d = "JObj [(ustr ''error'', JObj [(ustr ''code'', JInt (- 1))])]"
  let ?e = "JObj [(ustr ''error'', JStr (ustr ''boom''))]"
  let ?f = "JObj [(ustr ''result'', JNull)]"
  have nf: "nested_text ?f = Inl TypeError" by (simp add: nested_text_def bind_err_def)
  have ne: "nested_text (JObj []) = Inl KeyError" by (simp add: nested_text_def bind_err_def)
  from call_tool_results [of ?d ?r] have 5: "tool_result ?r ?d = Inl KeyError" by simp
  from call_tool_results [of ?e ?r] have 6: "tool_result ?r ?e = Inl TypeError" by simp
  from call_tool_results [of ?f ?r] nf have 7: "tool_result ?r ?f = Inl TypeError" by simp
  from call_tool_results [of "JObj []" ?r "\<lparr>sent = [], stdout_lines = [], writes_left = 0\<rparr>"]
  have 8: "fst (call_tool ?r \<lparr>sent = [], stdout_lines = [], writes_left = 0\<rparr>
          (JStr (ustr ''generate_oxid_ui'')) (JObj [])) = Inl BrokenPipeError"
    by simp
  from call_tool_results [of "JObj []" ?r "\<lparr>sent = [], stdout_lines = [], writes_left = 1\<rparr>"] ne
  have 9: "fst (call_tool ?r \<lparr>sent = [], stdout_lines = [], writes_left = 1\<rparr>
          (JStr (ustr ''generate_oxid_ui'')) (JObj [])) = Inr (JStr (ustr ''{}''))"
    by (simp add: reply_of_def bind_err_def)
  from 1 2 nb 3 nc 4 5 6 nf 7 8 9 show ?thesis by simp
qed

text \<open>
  C4, as stated, fails: \<^verbatim>\<open>call_tool\<close> raises \<^verbatim>\<open>TypeError\<close> on an \<^verbatim>\<open>error\<close> that is a string,
  \<^verbatim>\<open>KeyError\<close> on an \<^verbatim>\<open>error\<close> mapping without \<^verbatim>\<open>message\<close>, and \<^verbatim>\<open>TypeError\<close> on a reply
  whose \<^verbatim>\<open>result\<close> is \<^verbatim>\<open>null\<close>, which line 74 does not catch, and \<^verbatim>\<open>BrokenPipeError\<close> when
  the subprocess no longer accepts the request.
\<close>

theorem call_tool_raises_counterexample:
  \<open>fst (call_tool (\<lambda>v. []) \<lparr>sent = [], stdout_lines = [ustr ''{"error": "boom"}''], writes_left = 1\<rparr>
          (JStr (ustr ''generate_oxid_ui'')) (JObj [])) = Inl TypeError
   \<and> fst (call_tool (\<lambda>v. []) \<lparr>sent = [], stdout_lines = [ustr ''{"error": {"code": -1}}''], writes_left = 1\<rparr>
          (JStr (ustr ''generate_oxid_ui'')) (JObj [])) = Inl KeyError
   \<and> fst (call_tool (\<lambda>v. []) \<lparr>sent = [], stdout_lines = [ustr ''{"result": null}''], writes_left = 1\<rparr>
          (JStr (ustr ''generate_oxid_ui'')) (JObj [])) = Inl TypeError
   \<and> fst (call_tool (\<lambda>v. []) \<lparr>sent = [], stdout_lines = [], writes_left = 0\<rparr>
          (JStr (ustr ''generate_oxid_ui'')) (JObj [])) = Inl BrokenPipeError\<close>
  by (simp add: client_eval json_eval str_eval has_key_def)

text \<open>
  C6. Catalog resolution never fails and falls back to the default catalog when the tool
  list is empty, when the lookup of the enumeration raises, and when the lookup yields
  nothing; an enumeration that is a non-empty sequence becomes the catalog. The default
  catalog is the eight kinds in the order of line 147.
\<close>

theorem catalog_resolution:
  "(\<not> py_truthy tools \<longrightarrow> resolve_catalog tools = default_components)
   \<and> (\<forall>e. schema_enum_of tools = Inl e \<longrightarrow> resolve_catalog tools = default_components)
   \<and> (\<forall>schema_enum. schema_enum_of tools = Inr schema_enum \<and> \<not> py_truthy schema_enum \<longrightarrow>
        resolve_catalog tools = default_components)
   \<and> (\<forall>kinds. py_truthy tools \<and> schema_enum_of tools = Inr (JArr kinds) \<and> kinds \<noteq> [] \<longrightarrow>
        resolve_catalog tools = JArr kinds)
   \<and> default_components =
       JArr (map (\<lambda>s. JStr (ustr s))
         [''VStack'', ''HStack'', ''ZStack'', ''Button'', ''Label'', ''Input'', ''Image'', ''Chart''])"
  by (auto simp: resolve_catalog_cases default_components_def)

theorem catalog_resolution_witness:
  \<open>\<not> py_truthy (JArr []) \<and> resolve_catalog (JArr []) = default_components
   \<and> schema_enum_of (JObj [(ustr ''name'', JStr (ustr ''generate_oxid_ui''))]) = Inl KeyError
   \<and> resolve_catalog (JObj [(ustr ''name'', JStr (ustr ''generate_oxid_ui''))]) = default_components
   \<and> schema_enum_of (JArr [JObj [(ustr ''name'', JStr (ustr ''generate_oxid_ui''))]]) = Inr JNull
   \<and> \<not> py_truthy JNull
   \<and> resolve_catalog (JArr [JObj [(ustr ''name'', JStr (ustr ''generate_oxid_ui''))]]) = default_components
   \<and> py_truthy (JArr [JObj [(ustr ''inputSchema'', JObj [(ustr ''properties'',
          JObj [(ustr ''type_name'', JObj [(ustr ''enum'', JArr [JStr (ustr ''Grid''), JStr (ustr ''Label'')])])])])]])
   \<and> schema_enum_of (JArr [JObj [(ustr ''inputSchema'', JObj [(ustr ''properties'',
          JObj [(ustr ''type_name'', JObj [(ustr ''enum'', JArr [JStr (ustr ''Grid''), JStr (ustr ''Label'')])])])])]])
       = Inr (JArr [JStr (ustr ''Grid''), JStr (ustr ''Label'')])
   \<and> [JStr (ustr ''Grid''), JStr (ustr ''Label'')] \<noteq> []
   \<and> resolve_catalog (JArr [JObj [(ustr ''inputSchema'', JObj [(ustr ''properties'',
          JObj [(ustr ''type_name'', JObj [(ustr ''enum'', JArr [JStr (ustr ''Grid''), JStr (ustr ''Label'')])])])])]])
       = JArr [JStr (ustr ''Grid''), JStr (ustr ''Label'')]\<close>
proof -
  let ?t1 = "JObj [(ustr ''name'', JStr (ustr ''generate_oxid_ui''))]"
  let ?t2 = "JArr [?t1]"
  let ?t3 = "JArr [JObj [(ustr ''inputSchema'', JObj [(ustr ''properties'',
          JObj [(ustr ''type_name'', JObj [(ustr ''enum'', JArr [JStr (ustr ''Grid''), JStr (ustr ''Label'')])])])])]]"
  have e1: "schema_enum_of ?t1 = Inl KeyError" by (simp add: schema_enum_of_def bind_err_def)
  have e2: "schema_enum_of ?t2 = Inr JNull" by (simp add: schema_enum_of_def bind_err_def)
  have e3: "schema_enum_of ?t3 = Inr (JArr [JStr (ustr ''Grid''), JStr (ustr ''Label'')])"
    by (simp add: schema_enum_of_def bind_err_def)
  from catalog_resolution [of "JArr []"] have r0: "resolve_catalog (JArr []) = default_components"
    by simp
  from catalog_resolution [of ?t1] e1 have r1: "resolve_catalog ?t1 = default_components"
    by blast
  from catalog_resolution [of ?t2] e2 have r2: "resolve_catalog ?t2 = default_components"
    by simp
  from catalog_resolution [of ?t3] e3
  have r3: "resolve_catalog ?t3 = JArr [JStr (ustr ''Grid''), JStr (ustr ''Label'')]"
    by simp
  from e1 e2 e3 r0 r1 r2 r3 show ?thesis by simp
qed

text \<open>
  C7, as the code has it. The threshold of line 214 counts messages, not turns: a turn that
  starts with more than six messages behaves as if the history were its first message (the
  system message) alone. The history after a turn is the history cut that way, followed by
  the messages of the current turn (what the same turn appends to an empty history), so it
  keeps at most six earlier messages. After more than six turns the history still begins
  with the first message and is at least six messages shorter than the full transcript.
\<close>

theorem history_bound:
  "(length msgs > 6 \<longrightarrow> turn g p msgs i r = turn g p [msgs ! 0] i r)
   \<and> (\<forall>msgs' p'. turn g p msgs i r = Inr (msgs', p') \<longrightarrow>
        (\<exists>added. msgs' = (if length msgs > 6 then [msgs ! 0] else msgs) @ user_message i # added
                 \<and> turn g p [] i r = Inr (user_message i # added, p')
                 \<and> length msgs' \<le> 7 + length added))
   \<and> (\<forall>h q. msgs \<noteq> [] \<and> length ts > 6 \<and> run_turns g p msgs ts = Inr (h, q) \<longrightarrow>
        hd h = hd msgs
        \<and> (\<exists>full. full_transcript g p msgs ts = Inr (full, q) \<and> length h + 6 \<le> length full))"
proof (intro conjI allI impI)
  assume "length msgs > 6"
  then show "turn g p msgs i r = turn g p [msgs ! 0] i r"
    by (simp add: turn_append [of g p msgs] turn_append [of g p "[msgs ! 0]"])
next
  fix msgs' p'
  assume a: "turn g p msgs i r = Inr (msgs', p')"
  then obtain out where o: "turn g p [] i r = Inr (out, p')"
    and m: "msgs' = (if length msgs > 6 then [msgs ! 0] else msgs) @ out"
    unfolding turn_append [of g p msgs] by (auto split: sum.splits)
  from turn_empty_head [OF o] obtain added where out: "out = user_message i # added" ..
  with m have "length msgs' \<le> 7 + length added" by simp
  with out o m show "\<exists>added. msgs' = (if length msgs > 6 then [msgs ! 0] else msgs) @ user_message i # added
                 \<and> turn g p [] i r = Inr (user_message i # added, p')
                 \<and> length msgs' \<le> 7 + length added" by blast
next
  fix h q
  assume a: "msgs \<noteq> [] \<and> length ts > 6 \<and> run_turns g p msgs ts = Inr (h, q)"
  then show "hd h = hd msgs" using run_turns_hd [of g p msgs ts h q] by simp
  from a have ne: "msgs \<noteq> []" and n: "length ts > 6" and run: "run_turns g p msgs ts = Inr (h, q)"
    by simp_all
  from run_turns_vs_full [OF run, of msgs] obtain full where
    f: "full_transcript g p msgs ts = Inr (full, q)"
    and d: "(h = full \<and> (ts = [] \<or> length msgs + length ts \<le> 7)) \<or> length h + 6 \<le> length full"
    by auto
  from ne have "length msgs \<ge> 1" by (cases msgs) simp_all
  with n d have "length h + 6 \<le> length full" by auto
  with f show "\<exists>full. full_transcript g p msgs ts = Inr (full, q) \<and> length h + 6 \<le> length full"
    by blast
qed

theorem history_bound_witness:
  \<open>length (JObj [(ustr ''role'', JStr (ustr ''system''))] # replicate 6 JNull) > 6
   \<and> turn (\<lambda>p n a. Inr (JStr (ustr ''fn main() {}''), Suc p)) (0::nat)
        (JObj [(ustr ''role'', JStr (ustr ''system''))] # replicate 6 JNull) (ustr ''a button'')
        (JObj [(ustr ''message'', JObj [(ustr ''content'', JStr (ustr ''hello''))])])
      = Inr ([JObj [(ustr ''role'', JStr (ustr ''system''))], user_message (ustr ''a button''),
              JObj [(ustr ''content'', JStr (ustr ''hello''))]], 0)
   \<and> turn (\<lambda>p n a. Inr (JStr (ustr ''fn main() {}''), Suc p)) (0::nat) [] (ustr ''a button'')
        (JObj [(ustr ''message'', JObj [(ustr ''content'', JStr (ustr ''hello''))])])
      = Inr ([user_message (ustr ''a button''), JObj [(ustr ''content'', JStr (ustr ''hello''))]], 0)
   \<and> [JObj [(ustr ''role'', JStr (ustr ''system''))]] \<noteq> []
   \<and> length (replicate 7 (ustr ''a button'',
          JObj [(ustr ''message'', JObj [(ustr ''content'', JStr (ustr ''hello''))])])) > 6
   \<and> run_turns (\<lambda>p n a. Inr (JStr (ustr ''fn main() {}''), Suc p)) (0::nat)
        [JObj [(ustr ''role'', JStr (ustr ''system''))]]
        (replicate 7 (ustr ''a button'',
          JObj [(ustr ''message'', JObj [(ustr ''content'', JStr (ustr ''hello''))])]))
      = Inr ([JObj [(ustr ''role'', JStr (ustr ''system''))], user_message (ustr ''a button''),
              JObj [(ustr ''content'', JStr (ustr ''hello''))]], 0)
   \<and> (\<exists>full. full_transcript (\<lambda>p n a. Inr (JStr (ustr ''fn main() {}''), Suc p)) (0::nat)
        [JObj [(ustr ''role'', JStr (ustr ''system''))]]
        (replicate 7 (ustr ''a button'',
          JObj [(ustr ''message'', JObj [(ustr ''content'', JStr (ustr ''hello''))])]))
        = Inr (full, 0) \<and> 3 + 6 \<le> length full)\<close>
proof -
  let ?g = "\<lambda>(p::nat) (n::json) (a::json). (Inr (JStr (ustr ''fn main() {}''), Suc p) :: py_error + json \<times> nat)"
  let ?sys = "JObj [(ustr ''role'', JStr (ustr ''system''))]"
  let ?r = "JObj [(ustr ''message'', JObj [(ustr ''content'', JStr (ustr ''hello''))])]"
  let ?i = "ustr ''a button''"
  let ?m = "JObj [(ustr ''content'', JStr (ustr ''hello''))]"
  have x: "extract_json_from_text (ustr ''hello'') = None"
    by (simp add: extract_eval str_eval)
  have t0: "turn ?g 0 [] ?i ?r = Inr ([user_message ?i, ?m], 0)"
    by (simp add: turn_def respond_def synthesize_tool_calls_def bind_err_def x)
  have step: "turn ?g 0 ms ?i ?r = Inr ((if length ms > 6 then [ms ! 0] else ms) @ [user_message ?i, ?m], 0)" for ms
    unfolding turn_append [of ?g 0 ms] t0 by simp
  have l: "length (?sys # replicate 6 JNull) > 6" by simp
  from history_bound [of "?sys # replicate 6 JNull" ?g 0 ?i ?r] l t0
  have t7: "turn ?g 0 (?sys # replicate 6 JNull) ?i ?r = Inr ([?sys, user_message ?i, ?m], 0)"
    by (simp add: step)
  have run: "run_turns ?g 0 [?sys] (replicate 7 (?i, ?r)) = Inr ([?sys, user_message ?i, ?m], 0)"
    by (simp add: numeral_eq_Suc step bind_err_def)
  from history_bound [of "[?sys]" ?g 0 ?i ?r "replicate 7 (?i, ?r)"] run
  have f: "\<exists>full. full_transcript ?g 0 [?sys] (replicate 7 (?i, ?r)) = Inr (full, 0)
              \<and> 3 + 6 \<le> length full"
    by simp
  from l t7 t0 run f show ?thesis by simp
qed

text \<open>
  C7, as stated, fails: after eight turns, each answered in plain text, the history holds
  the system message, the two messages of the seventh turn and the two of the eighth, not
  the system message and the current turn's messages only. The history reached seven
  messages after the sixth turn, the seventh turn cut it, and the eighth found three.
\<close>

theorem history_turns_counterexample:
  \<open>run_turns (\<lambda>p n a. Inr (JStr (ustr ''fn main() {}''), Suc p)) (0::nat)
      [JObj [(ustr ''role'', JStr (ustr ''system''))]]
      [(ustr ''one'', JObj [(ustr ''message'', JObj [(ustr ''content'', JStr (ustr ''hello''))])]),
       (ustr ''two'', JObj [(ustr ''message'', JObj [(ustr ''content'', JStr (ustr ''hello''))])]),
       (ustr ''three'', JObj [(ustr ''message'', JObj [(ustr ''content'', JStr (ustr ''hello''))])]),
       (ustr ''four'', JObj [(ustr ''message'', JObj [(ustr ''content'', JStr (ustr ''hello''))])]),
       (ustr ''five'', JObj [(ustr ''message'', JObj [(ustr ''content'', JStr (ustr ''hello''))])]),
       (ustr ''six'', JObj [(ustr ''message'', JObj [(ustr ''content'', JStr (ustr ''hello''))])]),
       (ustr ''seven'', JObj [(ustr ''message'', JObj [(ustr ''content'', JStr (ustr ''hello''))])]),
       (ustr ''eight'', JObj [(ustr ''message'', JObj [(ustr ''content'', JStr (ustr ''hello''))])])]
    = Inr ([JObj [(ustr ''role'', JStr (ustr ''system''))],
            user_message (ustr ''seven''), JObj [(ustr ''content'', JStr (ustr ''hello''))],
            user_message (ustr ''eight''), JObj [(ustr ''content'', JStr (ustr ''hello''))]], 0)
   \<and> turn (\<lambda>p n a. Inr (JStr (ustr ''fn main() {}''), Suc p)) (0::nat) [] (ustr ''eight'')
        (JObj [(ustr ''message'', JObj [(ustr ''content'', JStr (ustr ''hello''))])])
      = Inr ([user_message (ustr ''eight''), JObj [(ustr ''content'', JStr (ustr ''hello''))]], 0)\<close>
proof -
  let ?g = "\<lambda>(p::nat) (n::json) (a::json). (Inr (JStr (ustr ''fn main() {}''), Suc p) :: py_error + json \<times> nat)"
  let ?r = "JObj [(ustr ''message'', JObj [(ustr ''content'', JStr (ustr ''hello''))])]"
  let ?m = "JObj [(ustr ''content'', JStr (ustr ''hello''))]"
  have x: "extract_json_from_text (ustr ''hello'') = None"
    by (simp add: extract_eval str_eval)
  have t0: "turn ?g 0 [] i ?r = Inr ([user_message i, ?m], 0)" for i
    by (simp add: turn_def respond_def synthesize_tool_calls_def bind_err_def x)
  have step: "turn ?g 0 ms i ?r = Inr ((if length ms > 6 then [ms ! 0] else ms) @ [user_message i, ?m], 0)" for ms i
    unfolding turn_append [of ?g 0 ms] t0 by simp
  show ?thesis by (simp add: step bind_err_def)
qed

end
